theory Spec2Isabelle
  imports Main "HOL-Library.Word" "HOL-Library.Signed_Division"
begin

section \<open>The waterfuse control loop (src/waterfuse.c)\<close>

text \<open>
  The program counts pulses of a flow meter in an interrupt handler and, once a second,
  decides in the loop of \<open>main\<close> whether to cut the pump relay. The embedding keeps the
  globals of the C file as one record, the interrupt handler, the signal handler and one
  pass through the loop body as functions on that record, and the hardware and the state
  file as two further fields of the record.

  Conventions of the embedding:
  \<^item> \<open>int\<close> and \<open>unsigned int\<close> are \<open>32 word\<close>; arithmetic wraps, \<open>int\<close> comparisons are
    the signed ones (\<open><s\<close>), comparisons with an \<open>unsigned int\<close> operand are the unsigned
    ones (\<open><\<close>), as the usual arithmetic conversions of C make them; \<open>unsigned char\<close>
    is \<open>8 word\<close>.
  \<^item> A division by zero ends the process (\<open>DivisionByZero\<close>), an index outside a message
    table is \<open>IndexOutOfRange\<close>, and \<open>writeState\<close> on a file that cannot be opened
    passes a null stream to \<open>vfprintf\<close> (\<open>NullStream\<close>).
  \<^item> The interrupt handler and the signal handler run asynchronously to \<open>main\<close>. In a run
    they are events between two passes through the loop body (\<open>Click\<close>, \<open>Signal\<close>), or
    they preempt a pass between two of its statements: \<open>pass\<close> is the loop body with a
    schedule that names, by the line of the source, the statements before which handlers
    run, and \<open>startup\<close> takes the handlers that run before the relay is first written.
    \<open>tick\<close> is the pass that nothing preempts. One statement of \<open>main\<close> and one run of a
    handler are each atomic.
  \<^item> Log output (\<open>printLog\<close>, \<open>rollLog\<close>, \<open>showConfig\<close>) changes none of the globals and
    is left out; the arguments it is called with are still evaluated where they can trap.
    \<open>createPidFile\<close>, the switch to a daemon and \<open>handleReset\<close>, which no interrupt is
    attached to, are left out as well.
\<close>

subsection \<open>Data\<close>

datatype pin_level = LOW | HIGH

datatype error = DivisionByZero | IndexOutOfRange | NullStream | IsrSetupFailed

record globals =
  clicks :: "32 word"
  reset :: "32 word"
  triggered :: "8 word"
  counting :: "8 word"
  last_click_time :: "32 word"
  last_click_count :: "32 word"
  first_click_time :: "32 word"
  total_clicks :: "32 word"
  clicks_per_litre :: "32 word"
  max_litres :: "32 word"
  reset_period :: "32 word"
  time_limit :: "32 word"
  verbose :: "32 word"
  relay :: pin_level
  state_writes :: "string list"

text \<open>
  \<open>relay\<close> is the level last written to the pin \<open>POWER_RELAY\<close>; \<open>state_writes\<close> lists
  what \<open>writeState\<close> has written to the state file, oldest first (each call truncates the
  file, so its content is the last element).
\<close>

datatype phase = Idle | Counting | Triggered

definition phase_of :: "globals \<Rightarrow> phase" where
  "phase_of s = (if triggered s \<noteq> 0 then Triggered else if counting s \<noteq> 0 then Counting else Idle)"

text \<open>The initialisers of the globals; the pin is not driven before \<open>main\<close> writes it.\<close>

definition init_globals :: globals where
  "init_globals = \<lparr> clicks = 0, reset = 0, triggered = 0, counting = 0,
     last_click_time = 0, last_click_count = 0, first_click_time = 0, total_clicks = 0,
     clicks_per_litre = 450, max_litres = 200, reset_period = 600, time_limit = 900,
     verbose = 0, relay = LOW, state_writes = [] \<rparr>"

subsection \<open>Handlers and helpers\<close>

definition handleClick :: "globals \<Rightarrow> globals" where
  "handleClick s = s\<lparr>clicks := clicks s + 1\<rparr>"

text \<open>
  \<open>readConfig\<close>: the file is \<open>None\<close> when \<open>fopen\<close> fails, otherwise the list of what the
  successive calls of \<open>fscanf(cfg, "%s %d", ...)\<close> deliver before the one that returns
  \<open>EOF\<close>: the token read into \<open>buf\<close> and, when the integer was converted too, its value
  (\<open>None\<close>: \<open>val\<close> keeps what it held). The first argument is the content of the
  uninitialised \<open>val\<close>.
\<close>

type_synonym scan_item = "string \<times> 32 word option"
type_synonym conf_file = "scan_item list option"

definition config_key :: "string \<Rightarrow> 32 word \<Rightarrow> globals \<Rightarrow> globals" where
  "config_key buf val s =
     (if buf = ''reset_period'' then s\<lparr>reset_period := val\<rparr>
      else if buf = ''max_time'' then s\<lparr>time_limit := val * 60\<rparr>
      else if buf = ''max_litres'' then s\<lparr>max_litres := val\<rparr>
      else if buf = ''clicks_per_litre'' then s\<lparr>clicks_per_litre := val\<rparr>
      else if buf = ''verbosity'' then s\<lparr>verbose := val\<rparr>
      else s)"

fun readConfig_loop :: "32 word \<Rightarrow> scan_item list \<Rightarrow> globals \<Rightarrow> globals" where
  "readConfig_loop val [] s = s"
| "readConfig_loop val ((buf, r) # rest) s =
     (let val' = (case r of Some v \<Rightarrow> v | None \<Rightarrow> val)
      in readConfig_loop val' rest (config_key buf val' s))"

definition readConfig :: "32 word \<Rightarrow> conf_file \<Rightarrow> globals \<Rightarrow> globals" where
  "readConfig val0 cfg s = (case cfg of None \<Rightarrow> s | Some items \<Rightarrow> readConfig_loop val0 items s)"

definition status_line :: "string \<Rightarrow> string \<Rightarrow> string" where
  "status_line status reason = status @ [CHR 0x09] @ reason @ [CHR 0x0A]"

definition writeState :: "bool \<Rightarrow> string \<Rightarrow> globals \<Rightarrow> error + globals" where
  "writeState fopen_ok text s =
     (if fopen_ok then Inr (s\<lparr>state_writes := state_writes s @ [text]\<rparr>) else Inl NullStream)"

definition sdiv32 :: "32 word \<Rightarrow> 32 word \<Rightarrow> error + 32 word" where
  "sdiv32 a b = (if b = 0 then Inl DivisionByZero else Inr (word_of_int (sint a sdiv sint b)))"

definition udiv32 :: "32 word \<Rightarrow> 32 word \<Rightarrow> error + 32 word" where
  "udiv32 a b = (if b = 0 then Inl DivisionByZero else Inr (a div b))"

text \<open>\<open>showStats\<close> only logs, but its last argument divides by \<open>clicks_per_litre\<close>.\<close>

definition showStats :: "globals \<Rightarrow> error + globals" where
  "showStats s = (case sdiv32 (total_clicks s) (clicks_per_litre s) of
                    Inl e \<Rightarrow> Inl e | Inr total_litres \<Rightarrow> Inr s)"

datatype signal = SIGHUP | SIGUSR1 | SIGUSR2 | SIGCONT

definition signalHandler :: "32 word \<Rightarrow> conf_file \<Rightarrow> signal \<Rightarrow> globals \<Rightarrow> error + globals" where
  "signalHandler val0 cfg sig s =
     (case sig of
        SIGHUP \<Rightarrow> Inr (readConfig val0 cfg s)
      | SIGUSR1 \<Rightarrow> Inr (s\<lparr>reset := 2\<rparr>)
      | SIGUSR2 \<Rightarrow> showStats s
      | SIGCONT \<Rightarrow> Inr (s\<lparr>relay := LOW, triggered := 1\<rparr>))"

text \<open>
  What can preempt \<open>main\<close>: a pulse of the flow meter, which runs \<open>handleClick\<close>, or a
  signal, which runs \<open>signalHandler\<close> (with what \<open>readConfig\<close> would find at that
  moment).
\<close>

datatype async = Pulse | Sig "32 word" conf_file signal

definition handler :: "async \<Rightarrow> globals \<Rightarrow> error + globals" where
  "handler a s =
     (case a of
        Pulse \<Rightarrow> Inr (handleClick s)
      | Sig val0 cfg sig \<Rightarrow> signalHandler val0 cfg sig s)"

fun deliver :: "async list \<Rightarrow> globals \<Rightarrow> error + globals" where
  "deliver [] s = Inr s"
| "deliver (a # as) s = (case handler a s of Inl e \<Rightarrow> Inl e | Inr s' \<Rightarrow> deliver as s')"

definition reset_msg :: "string list" where
  "reset_msg = ['''', ''button'', ''signal'']"

definition stop_msg :: "string list" where
  "stop_msg = ['''', ''volume'', ''time'']"

definition msg_at :: "string list \<Rightarrow> 32 word \<Rightarrow> error + string" where
  "msg_at tab i = (if unat i < length tab then Inr (tab ! unat i) else Inl IndexOutOfRange)"

subsection \<open>One pass through the loop body of \<open>main\<close>\<close>

text \<open>
  Lines 280 to 285: the locals \<open>seconds\<close>, \<open>new_clicks\<close> and \<open>litres\<close>, and the baseline
  and lifetime total. \<open>total_litres\<close> is a signed division whose result is not used again;
  \<open>litres\<close> divides the unsigned \<open>clicks\<close>, so unsigned.
\<close>

definition sample :: "32 word \<Rightarrow> globals \<Rightarrow> error + (32 word \<times> 32 word \<times> 32 word \<times> globals)" where
  "sample now s =
     (let seconds = now - last_click_time s;
          new_clicks = clicks s - last_click_count s;
          s1 = s\<lparr>last_click_count := clicks s\<rparr>;
          s2 = s1\<lparr>total_clicks := total_clicks s1 + new_clicks\<rparr>
      in case sdiv32 (total_clicks s2) (clicks_per_litre s2) of
           Inl e \<Rightarrow> Inl e
         | Inr total_litres \<Rightarrow>
             (case udiv32 (clicks s2) (clicks_per_litre s2) of
                Inl e \<Rightarrow> Inl e
              | Inr litres \<Rightarrow> Inr (seconds, new_clicks, litres, s2)))"

text \<open>Lines 287 to 302: the reset button and the reset flag. Returns \<open>new_clicks\<close> too.\<close>

definition apply_reset ::
  "32 word \<Rightarrow> pin_level \<Rightarrow> bool \<Rightarrow> 32 word \<Rightarrow> globals \<Rightarrow> error + (32 word \<times> globals)" where
  "apply_reset now button fopen_ok new_clicks s =
     (let s1 = (if triggered s \<noteq> 0 \<and> button = LOW then s\<lparr>reset := 1\<rparr> else s)
      in if reset s1 \<noteq> 0 then
           (let s2 = s1\<lparr>triggered := 0, clicks := 0, counting := 0, last_click_count := 0,
                        last_click_time := now, first_click_time := now\<rparr>
            in case msg_at reset_msg (reset s2) of
                 Inl e \<Rightarrow> Inl e
               | Inr msg \<Rightarrow>
                   (case writeState fopen_ok (status_line ''started'' msg) s2 of
                      Inl e \<Rightarrow> Inl e
                    | Inr s3 \<Rightarrow> Inr (0, s3\<lparr>reset := 0, relay := HIGH\<rparr>)))
         else Inr (new_clicks, s1))"

text \<open>Lines 303 to 336: the state machine proper.\<close>

definition stop_reason_of :: "32 word \<Rightarrow> 32 word \<Rightarrow> globals \<Rightarrow> 32 word" where
  "stop_reason_of litres seconds_from_first s =
     (let stop_reason = 0;
          stop_reason = (if max_litres s < litres then 1 else stop_reason);
          stop_reason = (if time_limit s <s seconds_from_first then 2 else stop_reason)
      in stop_reason)"

definition transition ::
  "32 word \<Rightarrow> bool \<Rightarrow> 32 word \<Rightarrow> 32 word \<Rightarrow> 32 word \<Rightarrow> globals \<Rightarrow> error + globals" where
  "transition now fopen_ok seconds new_clicks litres s =
     (if triggered s = 0 then
        (if counting s \<noteq> 0 then
           (if new_clicks = 0 then
              (if reset_period s <s seconds
               then Inr (s\<lparr>counting := 0, clicks := 0, last_click_count := 0\<rparr>)
               else Inr s)
            else
              (let s1 = s\<lparr>last_click_time := now\<rparr>;
                   seconds_from_first = last_click_time s1 - first_click_time s1;
                   stop_reason = stop_reason_of litres seconds_from_first s1
               in if stop_reason \<noteq> 0 then
                    (let s2 = s1\<lparr>triggered := 1\<rparr>
                     in case msg_at stop_msg stop_reason of
                          Inl e \<Rightarrow> Inl e
                        | Inr msg \<Rightarrow>
                            (case writeState fopen_ok (status_line ''stopped'' msg) s2 of
                               Inl e \<Rightarrow> Inl e
                             | Inr s3 \<Rightarrow>
                                 (case showStats s3 of
                                    Inl e \<Rightarrow> Inl e
                                  | Inr s4 \<Rightarrow> Inr (s4\<lparr>relay := LOW\<rparr>))))
                  else Inr s1))
         else
           (if new_clicks \<noteq> 0
            then Inr (s\<lparr>counting := 1, first_click_time := now, last_click_time := now\<rparr>)
            else Inr s))
      else Inr s)"

text \<open>
  The loop body: \<open>now\<close> is what \<open>time(0)\<close> returns, \<open>button\<close> what
  \<open>digitalRead(RESET_BUTTON)\<close> returns, \<open>fopen_ok\<close> whether the state file can be opened.
\<close>

definition tick :: "32 word \<Rightarrow> pin_level \<Rightarrow> bool \<Rightarrow> globals \<Rightarrow> error + globals" where
  "tick now button fopen_ok s =
     (case sample now s of
        Inl e \<Rightarrow> Inl e
      | Inr (seconds, new_clicks, litres, s1) \<Rightarrow>
          (case apply_reset now button fopen_ok new_clicks s1 of
             Inl e \<Rightarrow> Inl e
           | Inr (new_clicks', s2) \<Rightarrow> transition now fopen_ok seconds new_clicks' litres s2))"

subsection \<open>A pass that handlers preempt\<close>

text \<open>
  A schedule lists handlers with the line of \<open>main\<close> before which each one runs; those of
  one line run in the order of the list. \<open>before sched line s rest\<close> runs the handlers
  scheduled at \<open>line\<close> and goes on with the statement of that line, \<open>rest\<close>. A line the
  pass does not reach runs no handler. The definitions below are \<open>sample\<close>,
  \<open>apply_reset\<close> and \<open>transition\<close> with such a point before every statement.
\<close>

type_synonym schedule = "(nat \<times> async) list"

definition at_line :: "schedule \<Rightarrow> nat \<Rightarrow> async list" where
  "at_line sched line = map snd (filter (\<lambda>p. fst p = line) sched)"

definition before :: "schedule \<Rightarrow> nat \<Rightarrow> globals \<Rightarrow> (globals \<Rightarrow> error + 'a) \<Rightarrow> error + 'a" where
  "before sched line s rest =
     (case deliver (at_line sched line) s of Inl e \<Rightarrow> Inl e | Inr s' \<Rightarrow> rest s')"

text \<open>Lines 280 to 286, as \<open>sample\<close>; \<open>clicks\<close> is read at lines 281, 282 and 285.\<close>

definition sample_preempted ::
  "schedule \<Rightarrow> 32 word \<Rightarrow> globals \<Rightarrow> error + (32 word \<times> 32 word \<times> 32 word \<times> globals)" where
  "sample_preempted sched now s =
     before sched 280 s (\<lambda>s. let seconds = now - last_click_time s in
     before sched 281 s (\<lambda>s. let new_clicks = clicks s - last_click_count s in
     before sched 282 s (\<lambda>s. let s = s\<lparr>last_click_count := clicks s\<rparr> in
     before sched 283 s (\<lambda>s. let s = s\<lparr>total_clicks := total_clicks s + new_clicks\<rparr> in
     before sched 284 s (\<lambda>s.
       case sdiv32 (total_clicks s) (clicks_per_litre s) of
         Inl e \<Rightarrow> Inl e
       | Inr total_litres \<Rightarrow>
     before sched 285 s (\<lambda>s.
       case udiv32 (clicks s) (clicks_per_litre s) of
         Inl e \<Rightarrow> Inl e
       | Inr litres \<Rightarrow>
     before sched 286 s (\<lambda>s. Inr (seconds, new_clicks, litres, s))))))))"

text \<open>
  Lines 291 to 301, the body of \<open>if (reset)\<close>; \<open>reset\<close> is read again at lines 298 (for
  the log) and 299.
\<close>

definition reset_block_preempted :: "schedule \<Rightarrow> 32 word \<Rightarrow> bool \<Rightarrow> globals \<Rightarrow> error + globals" where
  "reset_block_preempted sched now fopen_ok s =
     before sched 291 s (\<lambda>s. let s = s\<lparr>triggered := 0\<rparr> in
     before sched 292 s (\<lambda>s. let s = s\<lparr>clicks := 0\<rparr> in
     before sched 293 s (\<lambda>s. let s = s\<lparr>counting := 0\<rparr> in
     before sched 294 s (\<lambda>s. let s = s\<lparr>last_click_count := 0\<rparr> in
     before sched 295 s (\<lambda>s.
     before sched 296 s (\<lambda>s. let s = s\<lparr>last_click_time := now\<rparr> in
     before sched 297 s (\<lambda>s. let s = s\<lparr>first_click_time := now\<rparr> in
     before sched 298 s (\<lambda>s.
       case msg_at reset_msg (reset s) of
         Inl e \<Rightarrow> Inl e
       | Inr logged \<Rightarrow>
     before sched 299 s (\<lambda>s.
       case msg_at reset_msg (reset s) of
         Inl e \<Rightarrow> Inl e
       | Inr msg \<Rightarrow>
           (case writeState fopen_ok (status_line ''started'' msg) s of
              Inl e \<Rightarrow> Inl e
            | Inr s \<Rightarrow>
     before sched 300 s (\<lambda>s. let s = s\<lparr>reset := 0\<rparr> in
     before sched 301 s (\<lambda>s. Inr (s\<lparr>relay := HIGH\<rparr>)))))))))))))"

text \<open>Lines 287 to 302, as \<open>apply_reset\<close>.\<close>

definition apply_reset_preempted ::
  "schedule \<Rightarrow> 32 word \<Rightarrow> pin_level \<Rightarrow> bool \<Rightarrow> 32 word \<Rightarrow> globals \<Rightarrow> error + (32 word \<times> globals)" where
  "apply_reset_preempted sched now button fopen_ok new_clicks s =
     before sched 287 s (\<lambda>s.
       case (if triggered s \<noteq> 0 \<and> button = LOW
             then before sched 288 s (\<lambda>s. Inr (s\<lparr>reset := 1\<rparr>)) else Inr s) of
         Inl e \<Rightarrow> Inl e
       | Inr s \<Rightarrow>
     before sched 290 s (\<lambda>s.
       if reset s \<noteq> 0 then
         (case reset_block_preempted sched now fopen_ok s of
            Inl e \<Rightarrow> Inl e
          | Inr s \<Rightarrow> Inr (0, s))
       else Inr (new_clicks, s)))"

text \<open>Lines 322 to 326, the body of \<open>if (stop_reason)\<close>.\<close>

definition trigger_block_preempted ::
  "schedule \<Rightarrow> bool \<Rightarrow> 32 word \<Rightarrow> globals \<Rightarrow> error + globals" where
  "trigger_block_preempted sched fopen_ok stop_reason s =
     before sched 322 s (\<lambda>s. let s = s\<lparr>triggered := 1\<rparr> in
     before sched 323 s (\<lambda>s.
     before sched 324 s (\<lambda>s.
       case msg_at stop_msg stop_reason of
         Inl e \<Rightarrow> Inl e
       | Inr msg \<Rightarrow>
           (case writeState fopen_ok (status_line ''stopped'' msg) s of
              Inl e \<Rightarrow> Inl e
            | Inr s \<Rightarrow>
     before sched 325 s (\<lambda>s.
       case showStats s of
         Inl e \<Rightarrow> Inl e
       | Inr s \<Rightarrow>
     before sched 326 s (\<lambda>s. Inr (s\<lparr>relay := LOW\<rparr>)))))))"

text \<open>Lines 303 to 336, as \<open>transition\<close>.\<close>

definition transition_preempted ::
  "schedule \<Rightarrow> 32 word \<Rightarrow> bool \<Rightarrow> 32 word \<Rightarrow> 32 word \<Rightarrow> 32 word \<Rightarrow> globals \<Rightarrow> error + globals" where
  "transition_preempted sched now fopen_ok seconds new_clicks litres s =
     before sched 303 s (\<lambda>s.
       if triggered s = 0 then
     before sched 304 s (\<lambda>s.
       if counting s \<noteq> 0 then
     before sched 305 s (\<lambda>s.
       if new_clicks = 0 then
     before sched 306 s (\<lambda>s.
       if reset_period s <s seconds then
     before sched 307 s (\<lambda>s. let s = s\<lparr>counting := 0\<rparr> in
     before sched 308 s (\<lambda>s. let s = s\<lparr>clicks := 0\<rparr> in
     before sched 309 s (\<lambda>s. Inr (s\<lparr>last_click_count := 0\<rparr>))))
       else Inr s)
       else
     before sched 312 s (\<lambda>s. let s = s\<lparr>last_click_time := now\<rparr> in
     before sched 313 s (\<lambda>s. let seconds_from_first = last_click_time s - first_click_time s in
     before sched 314 s (\<lambda>s. let stop_reason = 0 in
     before sched 315 s (\<lambda>s.
       case (if max_litres s < litres
             then before sched 316 s (\<lambda>s. Inr (1, s)) else Inr (stop_reason, s)) of
         Inl e \<Rightarrow> Inl e
       | Inr (stop_reason, s) \<Rightarrow>
     before sched 318 s (\<lambda>s.
       case (if time_limit s <s seconds_from_first
             then before sched 319 s (\<lambda>s. Inr (2, s)) else Inr (stop_reason, s)) of
         Inl e \<Rightarrow> Inl e
       | Inr (stop_reason, s) \<Rightarrow>
     before sched 321 s (\<lambda>s.
       if stop_reason \<noteq> 0 then trigger_block_preempted sched fopen_ok stop_reason s
       else Inr s)))))))
       else
     before sched 330 s (\<lambda>s.
       if new_clicks \<noteq> 0 then
     before sched 331 s (\<lambda>s. let s = s\<lparr>counting := 1\<rparr> in
     before sched 332 s (\<lambda>s. let s = s\<lparr>first_click_time := now\<rparr> in
     before sched 333 s (\<lambda>s. Inr (s\<lparr>last_click_time := now\<rparr>))))
       else Inr s))
       else Inr s)"

text \<open>The loop body with the handlers of \<open>sched\<close> running inside it.\<close>

definition pass :: "schedule \<Rightarrow> 32 word \<Rightarrow> pin_level \<Rightarrow> bool \<Rightarrow> globals \<Rightarrow> error + globals" where
  "pass sched now button fopen_ok s =
     (case sample_preempted sched now s of
        Inl e \<Rightarrow> Inl e
      | Inr (seconds, new_clicks, litres, s1) \<Rightarrow>
          (case apply_reset_preempted sched now button fopen_ok new_clicks s1 of
             Inl e \<Rightarrow> Inl e
           | Inr (new_clicks', s2) \<Rightarrow>
               transition_preempted sched now fopen_ok seconds new_clicks' litres s2))"

subsection \<open>Start-up and runs\<close>

text \<open>
  The options \<open>getopt\<close> delivers, with \<open>atoi(optarg)\<close> already taken; \<open>-d\<close> only clears
  \<open>daemonise\<close>, which the loop never reads.
\<close>

datatype cmd_opt = Opt_l "32 word" | Opt_c "32 word" | Opt_t "32 word" | Opt_r "32 word" | Opt_d | Opt_v

fun apply_opt :: "globals \<Rightarrow> cmd_opt \<Rightarrow> globals" where
  "apply_opt s (Opt_l v) = s\<lparr>max_litres := v\<rparr>"
| "apply_opt s (Opt_c v) = s\<lparr>clicks_per_litre := v\<rparr>"
| "apply_opt s (Opt_t v) = s\<lparr>time_limit := v * 60\<rparr>"
| "apply_opt s (Opt_r v) = s\<lparr>reset_period := v\<rparr>"
| "apply_opt s Opt_d = s"
| "apply_opt s Opt_v = s\<lparr>verbose := verbose s + 1\<rparr>"

text \<open>
  \<open>main\<close> up to the loop (lines 196 to 267). The handlers are attached at lines 241 to
  250 and the relay is written at line 267: \<open>early\<close> lists the handlers that run in
  between.
\<close>

definition startup ::
  "32 word \<Rightarrow> conf_file \<Rightarrow> cmd_opt list \<Rightarrow> bool \<Rightarrow> bool \<Rightarrow> async list \<Rightarrow> error + globals" where
  "startup val0 cfg opts fopen_ok isr_ok early =
     (let s1 = readConfig val0 cfg init_globals;
          s2 = foldl apply_opt s1 opts
      in case writeState fopen_ok (status_line ''started'' ''startup'') s2 of
           Inl e \<Rightarrow> Inl e
         | Inr s3 \<Rightarrow>
             if isr_ok then
               (case deliver early s3 of
                  Inl e \<Rightarrow> Inl e
                | Inr s4 \<Rightarrow> Inr (s4\<lparr>relay := HIGH\<rparr>))
             else Inl IsrSetupFailed)"

text \<open>
  What happens to the process after start-up: a pulse of the flow meter or a signal (with
  what \<open>readConfig\<close> would find at that moment) between two passes through the loop body,
  a pass that nothing preempts, or a pass with the schedule of the handlers that preempt
  it.
\<close>

datatype event =
    Click
  | Signal "32 word" conf_file signal
  | Tick "32 word" pin_level bool
  | Pass "32 word" pin_level bool schedule

fun step :: "globals \<Rightarrow> event \<Rightarrow> error + globals" where
  "step s Click = Inr (handleClick s)"
| "step s (Signal val0 cfg sig) = signalHandler val0 cfg sig s"
| "step s (Tick now button fopen_ok) = tick now button fopen_ok s"
| "step s (Pass now button fopen_ok sched) = pass sched now button fopen_ok s"

fun exec :: "globals \<Rightarrow> event list \<Rightarrow> error + globals" where
  "exec s [] = Inr s"
| "exec s (e # es) = (case step s e of Inl err \<Rightarrow> Inl err | Inr s' \<Rightarrow> exec s' es)"

text \<open>
  Successive seconds from \<open>t\<close> on, each with a number of pulses followed by one pass
  through the loop that reads the given level of the reset button.
\<close>

fun pulsed_passes :: "32 word \<Rightarrow> (nat \<times> pin_level) list \<Rightarrow> event list" where
  "pulsed_passes t [] = []"
| "pulsed_passes t ((n, button) # rest) =
     replicate n Click @ Tick t button True # pulsed_passes (t + 1) rest"

subsection \<open>Observing a run\<close>

text \<open>
  The delta a pass through the loop reads is the \<open>new_clicks\<close> of line 281, as \<open>sample\<close>
  computes it; \<open>deltas\<close> lists them along a run, and \<open>upto_last_tick\<close> cuts a run after
  its last pass through the loop. \<open>pulses\<close> counts the pulses of a run, those between the
  passes and those scheduled inside them (at lines the pass reaches, in the runs below:
  a pulse scheduled at a line that is not reached runs no handler). \<open>unpreempted\<close> holds
  of the events other than a pass with handlers scheduled inside it.
\<close>

definition is_tick :: "event \<Rightarrow> bool" where
  "is_tick e =
     (case e of
        Tick now button fopen_ok \<Rightarrow> True
      | Pass now button fopen_ok sched \<Rightarrow> True
      | _ \<Rightarrow> False)"

definition read_delta :: "globals \<Rightarrow> event \<Rightarrow> 32 word list" where
  "read_delta s e =
     (case e of
        Tick now button fopen_ok \<Rightarrow>
          (case sample now s of
             Inl err \<Rightarrow> []
           | Inr (seconds, new_clicks, litres, s1) \<Rightarrow> [new_clicks])
      | Pass now button fopen_ok sched \<Rightarrow>
          (case sample_preempted sched now s of
             Inl err \<Rightarrow> []
           | Inr (seconds, new_clicks, litres, s1) \<Rightarrow> [new_clicks])
      | _ \<Rightarrow> [])"

fun deltas :: "globals \<Rightarrow> event list \<Rightarrow> 32 word list" where
  "deltas s [] = []"
| "deltas s (e # es) =
     (case step s e of Inl err \<Rightarrow> [] | Inr s' \<Rightarrow> read_delta s e @ deltas s' es)"

definition upto_last_tick :: "event list \<Rightarrow> event list" where
  "upto_last_tick evs = rev (dropWhile (\<lambda>e. \<not> is_tick e) (rev evs))"

definition pulses_of :: "event \<Rightarrow> nat" where
  "pulses_of e =
     (case e of
        Click \<Rightarrow> 1
      | Pass now button fopen_ok sched \<Rightarrow> count_list (map snd sched) Pulse
      | _ \<Rightarrow> 0)"

definition pulses :: "event list \<Rightarrow> nat" where
  "pulses evs = sum_list (map pulses_of evs)"

definition unpreempted :: "event \<Rightarrow> bool" where
  "unpreempted e = (case e of Pass now button fopen_ok sched \<Rightarrow> sched = [] | _ \<Rightarrow> True)"

text \<open>The keys \<open>readConfig\<close> compares \<open>buf\<close> with.\<close>

definition config_keys :: "string list" where
  "config_keys = [''reset_period'', ''max_time'', ''max_litres'', ''clicks_per_litre'', ''verbosity'']"

subsection \<open>Concrete states and runs\<close>

text \<open>
  The state at the first pass through the loop when there is no configuration file and no
  option, and states of an episode in progress, used to instantiate the theorems below.
\<close>

definition entry_state :: globals where
  "entry_state = init_globals\<lparr>relay := HIGH,
     state_writes := [''started'' @ [CHR 0x09] @ ''startup'' @ [CHR 0x0A]]\<rparr>"

definition stalled_state :: globals where
  "stalled_state = entry_state\<lparr>clicks := 1, counting := 1, last_click_count := 1,
     total_clicks := 1, first_click_time := 1000, last_click_time := 1000\<rparr>"

definition paused_state :: globals where
  "paused_state = entry_state\<lparr>clicks := 5, counting := 1, last_click_count := 5,
     total_clicks := 5, first_click_time := 1000, last_click_time := 1900\<rparr>"

definition tie_run :: "event list" where
  "tie_run = Click # Tick 1000 HIGH True # replicate 90450 Click"

definition tie_state :: globals where
  "tie_state = entry_state\<lparr>counting := 1, clicks := 90451, last_click_count := 1,
     total_clicks := 1, first_click_time := 1000, last_click_time := 1000\<rparr>"

definition tripped_state :: globals where
  "tripped_state = tie_state\<lparr>triggered := 1, last_click_time := 1901,
     last_click_count := 90451, total_clicks := 90451, relay := LOW,
     state_writes := [''started'' @ [CHR 0x09] @ ''startup'' @ [CHR 0x0A],
                      ''stopped'' @ [CHR 0x09] @ ''time'' @ [CHR 0x0A]]\<rparr>"

definition small_config :: conf_file where
  "small_config = Some [(''max_litres'', Some 10), (''clicks_per_litre'', Some 100)]"

definition small_entry :: globals where
  "small_entry = entry_state\<lparr>clicks_per_litre := 100, max_litres := 10\<rparr>"

definition episode_run :: "nat \<Rightarrow> event list" where
  "episode_run n = Click # Tick 1000 HIGH True # replicate n Click"

definition episode_state :: "32 word \<Rightarrow> globals" where
  "episode_state c = small_entry\<lparr>counting := 1, clicks := c, last_click_count := 1,
     total_clicks := 1, first_click_time := 1000, last_click_time := 1000\<rparr>"

definition minute_entry :: globals where
  "minute_entry = entry_state\<lparr>time_limit := 60\<rparr>"

text \<open>
  The state after \<open>SIGUSR1\<close> and a pass at second 1000 that resets, with \<open>SIGCONT\<close>
  delivered inside the reset block.
\<close>

definition raced_state :: globals where
  "raced_state = entry_state\<lparr>triggered := 1, last_click_time := 1000, first_click_time := 1000,
     state_writes := [''started'' @ [CHR 0x09] @ ''startup'' @ [CHR 0x0A],
                      ''started'' @ [CHR 0x09] @ ''signal'' @ [CHR 0x0A]]\<rparr>"

section \<open>Properties\<close>

subsection \<open>The three stages of the loop body\<close>

lemma sample_ok:
  "clicks_per_litre s \<noteq> 0 \<Longrightarrow>
   sample now s = Inr (now - last_click_time s, clicks s - last_click_count s,
                       clicks s div clicks_per_litre s,
                       s\<lparr>last_click_count := clicks s,
                         total_clicks := total_clicks s + (clicks s - last_click_count s)\<rparr>)"
  by (simp add: sample_def sdiv32_def udiv32_def Let_def)

lemma sample_trap: "clicks_per_litre s = 0 \<Longrightarrow> sample now s = Inl DivisionByZero"
  by (simp add: sample_def sdiv32_def Let_def)

lemma apply_reset_idle:
  "reset s = 0 \<Longrightarrow> triggered s = 0 \<or> button \<noteq> LOW \<Longrightarrow>
   apply_reset now button ok nc s = Inr (nc, s)"
  by (auto simp: apply_reset_def)

lemma apply_reset_fires:
  assumes "(triggered s \<noteq> 0 \<and> button = LOW) \<or> reset s = 1 \<or> reset s = 2"
  shows "apply_reset now button True nc s =
     Inr (0, s\<lparr>clicks := 0, reset := 0, triggered := 0, counting := 0,
               last_click_time := now, last_click_count := 0, first_click_time := now,
               relay := HIGH,
               state_writes := state_writes s @
                 [status_line ''started''
                    (if (triggered s \<noteq> 0 \<and> button = LOW) \<or> reset s = 1
                     then ''button'' else ''signal'')]\<rparr>)"
  using assms
  by (auto simp: apply_reset_def msg_at_def writeState_def reset_msg_def Let_def)

lemma apply_reset_Inr:
  assumes "apply_reset now button ok nc s = Inr (nc', s')"
  shows "(nc' = nc \<and> s' = s \<and> reset s = 0) \<or>
         (nc' = 0 \<and> triggered s' = 0 \<and> counting s' = 0 \<and> clicks s' = 0 \<and>
          last_click_count s' = 0 \<and> reset s' = 0 \<and> relay s' = HIGH)"
proof (cases "reset (if triggered s \<noteq> 0 \<and> button = LOW then s\<lparr>reset := 1\<rparr> else s) = 0")
  case True
  with assms show ?thesis by (auto simp: apply_reset_def split: if_splits)
next
  case False
  with assms show ?thesis
    by (auto simp: apply_reset_def writeState_def Let_def split: if_splits sum.splits)
qed

lemma transition_triggered: "triggered s \<noteq> 0 \<Longrightarrow> transition now ok sec nc l s = Inr s"
  by (simp add: transition_def)

lemma transition_idle:
  "triggered s = 0 \<Longrightarrow> counting s = 0 \<Longrightarrow>
   transition now ok sec nc l s =
     Inr (if nc \<noteq> 0 then s\<lparr>counting := 1, first_click_time := now, last_click_time := now\<rparr> else s)"
  by (simp add: transition_def)

lemma transition_stall:
  "triggered s = 0 \<Longrightarrow> counting s \<noteq> 0 \<Longrightarrow>
   transition now ok sec 0 l s =
     Inr (if reset_period s <s sec then s\<lparr>counting := 0, clicks := 0, last_click_count := 0\<rparr> else s)"
  by (simp add: transition_def)

text \<open>The second test overwrites what the first one stored.\<close>

lemma stop_reason_of_cases:
  "stop_reason_of l t s = (if time_limit s <s t then 2 else if max_litres s < l then 1 else 0)"
  by (simp add: stop_reason_of_def)

lemma stop_reason_of_upd [simp]:
  "stop_reason_of l t (s\<lparr>last_click_time := x\<rparr>) = stop_reason_of l t s"
  by (simp add: stop_reason_of_def)

lemma stop_msg_nth: "stop_msg ! Suc 0 = ''volume''" "stop_msg ! 2 = ''time''"
  by (simp_all add: stop_msg_def)

lemma transition_pulses:
  assumes "triggered s = 0" "counting s \<noteq> 0" "nc \<noteq> 0" "clicks_per_litre s \<noteq> 0"
  shows "transition now True sec nc l s =
     Inr (if stop_reason_of l (now - first_click_time s) s = 0
          then s\<lparr>last_click_time := now\<rparr>
          else s\<lparr>triggered := 1, last_click_time := now, relay := LOW,
                 state_writes := state_writes s @
                   [status_line ''stopped''
                      (stop_msg ! unat (stop_reason_of l (now - first_click_time s) s))]\<rparr>)"
proof -
  have r: "stop_reason_of l (now - first_click_time s) s \<in> {0, 1, 2}"
    by (simp add: stop_reason_of_cases)
  then have m: "msg_at stop_msg (stop_reason_of l (now - first_click_time s) s) =
      Inr (stop_msg ! unat (stop_reason_of l (now - first_click_time s) s))"
    by (auto simp: msg_at_def stop_msg_def)
  show ?thesis using assms
    by (simp add: transition_def Let_def m writeState_def showStats_def sdiv32_def)
qed

lemma transition_Inr:
  assumes "transition now ok sec nc l s = Inr s'"
  shows "(triggered s' = triggered s \<and> relay s' = relay s \<and> state_writes s' = state_writes s \<and>
          clicks s' - last_click_count s' = clicks s - last_click_count s) \<or>
         (triggered s = 0 \<and> counting s \<noteq> 0 \<and> nc = 0 \<and> triggered s' = 0 \<and> relay s' = relay s \<and>
          state_writes s' = state_writes s \<and> clicks s' = 0 \<and> last_click_count s' = 0) \<or>
         (triggered s = 0 \<and> counting s \<noteq> 0 \<and> nc \<noteq> 0 \<and> triggered s' = 1 \<and> relay s' = LOW \<and>
          clicks s' = clicks s \<and> last_click_count s' = last_click_count s)"
proof (cases "triggered s = 0")
  case False
  with assms show ?thesis by (simp add: transition_triggered)
next
  case t: True
  show ?thesis
  proof (cases "counting s = 0")
    case True
    with t assms show ?thesis by (auto simp: transition_idle split: if_splits)
  next
    case c: False
    show ?thesis
    proof (cases "nc = 0")
      case True
      with t c assms show ?thesis by (auto simp: transition_stall split: if_splits)
    next
      case False
      with t c assms show ?thesis
        by (auto simp: transition_def Let_def writeState_def showStats_def
            split: if_splits sum.splits)
    qed
  qed
qed

subsection \<open>The loop body as a whole\<close>

lemma tick_ok:
  "clicks_per_litre s \<noteq> 0 \<Longrightarrow>
   tick now button ok s =
     (case apply_reset now button ok (clicks s - last_click_count s)
             (s\<lparr>last_click_count := clicks s,
                total_clicks := total_clicks s + (clicks s - last_click_count s)\<rparr>) of
        Inl e \<Rightarrow> Inl e
      | Inr (nc, s2) \<Rightarrow>
          transition now ok (now - last_click_time s) nc (clicks s div clicks_per_litre s) s2)"
  by (simp add: tick_def sample_ok)

lemma tick_InrD:
  assumes "tick now button ok s = Inr s'"
  obtains nc s2 where "clicks_per_litre s \<noteq> 0"
    and "apply_reset now button ok (clicks s - last_click_count s)
           (s\<lparr>last_click_count := clicks s,
              total_clicks := total_clicks s + (clicks s - last_click_count s)\<rparr>) = Inr (nc, s2)"
    and "transition now ok (now - last_click_time s) nc (clicks s div clicks_per_litre s) s2 = Inr s'"
proof (cases "clicks_per_litre s = 0")
  case True
  with assms show ?thesis by (simp add: tick_def sample_trap)
next
  case False
  with assms that show ?thesis
    by (auto simp: tick_ok split: sum.splits)
qed

lemma tick_reset:
  assumes "(triggered s \<noteq> 0 \<and> button = LOW) \<or> reset s = 1 \<or> reset s = 2"
    and "clicks_per_litre s \<noteq> 0"
  shows "tick now button True s =
     Inr (s\<lparr>clicks := 0, reset := 0, triggered := 0, counting := 0,
            last_click_time := now, last_click_count := 0, first_click_time := now,
            total_clicks := total_clicks s + (clicks s - last_click_count s),
            relay := HIGH,
            state_writes := state_writes s @
              [status_line ''started''
                 (if (triggered s \<noteq> 0 \<and> button = LOW) \<or> reset s = 1 then ''button'' else ''signal'')]\<rparr>)"
proof -
  let ?s1 = "s\<lparr>last_click_count := clicks s,
                total_clicks := total_clicks s + (clicks s - last_click_count s)\<rparr>"
  have "(triggered ?s1 \<noteq> 0 \<and> button = LOW) \<or> reset ?s1 = 1 \<or> reset ?s1 = 2"
    using assms(1) by simp
  from apply_reset_fires [OF this, of now "clicks s - last_click_count s"] assms(2)
  show ?thesis by (simp add: tick_ok transition_idle)
qed

lemma tick_counting_pulses:
  assumes "triggered s = 0" "counting s \<noteq> 0" "reset s = 0"
    and "clicks s \<noteq> last_click_count s" "clicks_per_litre s \<noteq> 0"
  shows "tick now button True s =
     Inr (if stop_reason_of (clicks s div clicks_per_litre s) (now - first_click_time s) s = 0
          then s\<lparr>last_click_time := now, last_click_count := clicks s,
                 total_clicks := total_clicks s + (clicks s - last_click_count s)\<rparr>
          else s\<lparr>triggered := 1, last_click_time := now, last_click_count := clicks s,
                 total_clicks := total_clicks s + (clicks s - last_click_count s),
                 relay := LOW,
                 state_writes := state_writes s @
                   [status_line ''stopped''
                      (stop_msg ! unat (stop_reason_of (clicks s div clicks_per_litre s)
                                          (now - first_click_time s) s))]\<rparr>)"
proof -
  let ?s1 = "s\<lparr>last_click_count := clicks s,
                total_clicks := total_clicks s + (clicks s - last_click_count s)\<rparr>"
  have sr: "stop_reason_of l t ?s1 = stop_reason_of l t s" for l t
    by (simp add: stop_reason_of_def)
  have "transition now True (now - last_click_time s) (clicks s - last_click_count s)
          (clicks s div clicks_per_litre s) ?s1 =
     Inr (if stop_reason_of (clicks s div clicks_per_litre s) (now - first_click_time ?s1) ?s1 = 0
          then ?s1\<lparr>last_click_time := now\<rparr>
          else ?s1\<lparr>triggered := 1, last_click_time := now, relay := LOW,
                 state_writes := state_writes ?s1 @
                   [status_line ''stopped''
                      (stop_msg ! unat (stop_reason_of (clicks s div clicks_per_litre s)
                                          (now - first_click_time ?s1) ?s1))]\<rparr>)"
    using assms by (intro transition_pulses) simp_all
  then show ?thesis using assms
    by (simp add: tick_ok apply_reset_idle sr)
qed

lemma tick_stall:
  assumes "triggered s = 0" "counting s \<noteq> 0" "reset s = 0"
    and "clicks s = last_click_count s" "clicks_per_litre s \<noteq> 0"
  shows "tick now button ok s =
     Inr (if reset_period s <s now - last_click_time s
          then s\<lparr>counting := 0, clicks := 0, last_click_count := 0\<rparr> else s)"
  using assms by (simp add: tick_ok apply_reset_idle transition_stall)

lemma tick_effect:
  assumes "tick now button ok s = Inr s'"
  shows "clicks s' = last_click_count s'"
    and "(triggered s \<noteq> 0 \<longleftrightarrow> relay s = LOW) \<Longrightarrow> (triggered s' \<noteq> 0 \<longleftrightarrow> relay s' = LOW)"
    and "triggered s = 0 \<Longrightarrow> clicks s = last_click_count s \<Longrightarrow>
           triggered s' = 0 \<and> (relay s = HIGH \<longrightarrow> relay s' = HIGH)"
proof -
  let ?s1 = "s\<lparr>last_click_count := clicks s,
                total_clicks := total_clicks s + (clicks s - last_click_count s)\<rparr>"
  from assms obtain nc s2 where
    a: "apply_reset now button ok (clicks s - last_click_count s) ?s1 = Inr (nc, s2)" and
    t: "transition now ok (now - last_click_time s) nc (clicks s div clicks_per_litre s) s2 = Inr s'"
    by (rule tick_InrD)
  note A = apply_reset_Inr [OF a] and T = transition_Inr [OF t]
  show "clicks s' = last_click_count s'"
    using A T by auto
  show "triggered s' \<noteq> 0 \<longleftrightarrow> relay s' = LOW" if "triggered s \<noteq> 0 \<longleftrightarrow> relay s = LOW"
    using A T that by auto
  show "triggered s' = 0 \<and> (relay s = HIGH \<longrightarrow> relay s' = HIGH)"
    if "triggered s = 0" "clicks s = last_click_count s"
    using A T that by auto
qed

lemma phase_of_Counting: "phase_of s = Counting \<longleftrightarrow> triggered s = 0 \<and> counting s \<noteq> 0"
  by (simp add: phase_of_def)

lemma phase_of_Triggered: "phase_of s = Triggered \<longleftrightarrow> triggered s \<noteq> 0"
  by (simp add: phase_of_def)

lemma phase_of_Idle: "phase_of s = Idle \<longleftrightarrow> triggered s = 0 \<and> counting s = 0"
  by (simp add: phase_of_def)

lemmas state_defs = entry_state_def init_globals_def phase_of_def

subsection \<open>The pass that nothing preempts\<close>

text \<open>With an empty schedule the pass is \<open>tick\<close>, stage by stage.\<close>

lemma before_Nil [simp]: "before [] line s rest = rest s"
  by (simp add: before_def at_line_def)

lemma sample_unpreempted: "sample_preempted [] now s = sample now s"
  by (simp add: sample_preempted_def sample_def Let_def cong: sum.case_cong)

lemma apply_reset_unpreempted:
  "apply_reset_preempted [] now button ok nc s = apply_reset now button ok nc s"
  by (simp add: apply_reset_preempted_def reset_block_preempted_def apply_reset_def Let_def
      cong: sum.case_cong split: sum.splits)

lemma transition_unpreempted:
  "transition_preempted [] now ok sec nc l s = transition now ok sec nc l s"
  by (simp add: transition_preempted_def trigger_block_preempted_def transition_def
      stop_reason_of_def Let_def cong: sum.case_cong)

lemma pass_unpreempted: "pass [] now button ok s = tick now button ok s"
  by (simp add: pass_def tick_def sample_unpreempted apply_reset_unpreempted transition_unpreempted
      cong: sum.case_cong prod.case_cong)

lemmas pass_defs = pass_def sample_preempted_def apply_reset_preempted_def
  reset_block_preempted_def transition_preempted_def trigger_block_preempted_def
  before_def at_line_def handler_def handleClick_def signalHandler_def
  sdiv32_def udiv32_def msg_at_def writeState_def reset_msg_def status_line_def

subsection \<open>Start-up and the first pulses\<close>

lemma exec_clicks:
  "exec s (replicate n Click @ es) = exec (s\<lparr>clicks := clicks s + of_nat n\<rparr>) es"
proof (induction n arbitrary: s)
  case 0
  then show ?case by simp
next
  case (Suc n)
  have "exec s (replicate (Suc n) Click @ es) = exec (handleClick s) (replicate n Click @ es)"
    by simp
  also have "\<dots> = exec ((handleClick s)\<lparr>clicks := clicks (handleClick s) + of_nat n\<rparr>) es"
    by (rule Suc.IH)
  also have "(handleClick s)\<lparr>clicks := clicks (handleClick s) + of_nat n\<rparr> =
      s\<lparr>clicks := clicks s + of_nat (Suc n)\<rparr>"
    by (simp add: handleClick_def add.assoc)
  finally show ?case .
qed

lemma startup_entry: "startup 0 None [] True True [] = Inr entry_state"
  by (simp add: startup_def readConfig_def writeState_def entry_state_def init_globals_def
      status_line_def Let_def)

lemma startup_small: "startup 0 small_config [] True True [] = Inr small_entry"
  by (simp add: startup_def readConfig_def writeState_def small_config_def small_entry_def
      entry_state_def init_globals_def config_key_def status_line_def Let_def)

lemma first_pulse:
  assumes "triggered s = 0" "counting s = 0" "reset s = 0" "clicks s = 0" "last_click_count s = 0"
    and "clicks_per_litre s \<noteq> 0"
  shows "exec s (Click # Tick now HIGH True # es) =
     exec (s\<lparr>clicks := 1, counting := 1, last_click_count := 1,
             total_clicks := total_clicks s + 1, first_click_time := now,
             last_click_time := now\<rparr>) es"
proof -
  have "tick now HIGH True (handleClick s) =
     Inr (s\<lparr>clicks := 1, counting := 1, last_click_count := 1,
            total_clicks := total_clicks s + 1, first_click_time := now,
            last_click_time := now\<rparr>)"
    using assms by (simp add: handleClick_def tick_ok apply_reset_idle transition_idle)
  then show ?thesis by simp
qed


subsection \<open>Configuration\<close>

lemma config_key_frame:
  "clicks (config_key buf val s) = clicks s"
  "last_click_count (config_key buf val s) = last_click_count s"
  "triggered (config_key buf val s) = triggered s"
  "relay (config_key buf val s) = relay s"
  "reset (config_key buf val s) = reset s"
  "counting (config_key buf val s) = counting s"
  by (simp_all add: config_key_def)

lemma readConfig_loop_frame:
  "clicks (readConfig_loop val items s) = clicks s \<and>
   last_click_count (readConfig_loop val items s) = last_click_count s \<and>
   triggered (readConfig_loop val items s) = triggered s \<and>
   relay (readConfig_loop val items s) = relay s \<and>
   reset (readConfig_loop val items s) = reset s \<and>
   counting (readConfig_loop val items s) = counting s"
  by (induction val items s rule: readConfig_loop.induct) (simp_all add: config_key_frame Let_def)

lemma readConfig_frame:
  "clicks (readConfig val cfg s) = clicks s"
  "last_click_count (readConfig val cfg s) = last_click_count s"
  "triggered (readConfig val cfg s) = triggered s"
  "relay (readConfig val cfg s) = relay s"
  "reset (readConfig val cfg s) = reset s"
  "counting (readConfig val cfg s) = counting s"
  by (simp_all add: readConfig_def readConfig_loop_frame split: option.split)

lemma config_key_unknown: "buf \<notin> set config_keys \<Longrightarrow> config_key buf val s = s"
  by (simp add: config_key_def config_keys_def)

lemma readConfig_loop_unknown:
  "\<forall>item \<in> set items. fst item \<notin> set config_keys \<Longrightarrow> readConfig_loop val items s = s"
  by (induction val items s rule: readConfig_loop.induct) (simp_all add: config_key_unknown Let_def)

lemma readConfig_Cons:
  "readConfig val0 (Some ((buf, r) # rest)) s =
     readConfig (case r of Some v \<Rightarrow> v | None \<Rightarrow> val0) (Some rest)
       (config_key buf (case r of Some v \<Rightarrow> v | None \<Rightarrow> val0) s)"
  by (simp add: readConfig_def Let_def)

text \<open>
  C7. \<open>readConfig\<close> stores the value read after a recognised key in that key's global,
  the value after \<open>max_time\<close> multiplied by 60 in \<open>time_limit\<close>, and goes on with the rest
  of the file; a token that is none of the five keys changes nothing, with or without a
  value after it, and a file of such tokens leaves every global as it was; when the file
  cannot be opened no global changes, so that at start-up the five settings are the
  built-in 450, 200, 600, 900 and 0, and \<open>readConfig\<close> returns normally in every case (it
  has no error result).
\<close>

theorem readConfig_keys:
  "readConfig val0 (Some ((''reset_period'', Some v) # rest)) s =
     readConfig v (Some rest) (s\<lparr>reset_period := v\<rparr>) \<and>
   readConfig val0 (Some ((''max_time'', Some v) # rest)) s =
     readConfig v (Some rest) (s\<lparr>time_limit := v * 60\<rparr>) \<and>
   readConfig val0 (Some ((''max_litres'', Some v) # rest)) s =
     readConfig v (Some rest) (s\<lparr>max_litres := v\<rparr>) \<and>
   readConfig val0 (Some ((''clicks_per_litre'', Some v) # rest)) s =
     readConfig v (Some rest) (s\<lparr>clicks_per_litre := v\<rparr>) \<and>
   readConfig val0 (Some ((''verbosity'', Some v) # rest)) s =
     readConfig v (Some rest) (s\<lparr>verbose := v\<rparr>) \<and>
   (buf \<notin> set config_keys \<longrightarrow>
      readConfig val0 (Some ((buf, r) # rest)) s =
        readConfig (case r of Some v \<Rightarrow> v | None \<Rightarrow> val0) (Some rest) s) \<and>
   ((\<forall>item \<in> set items. fst item \<notin> set config_keys) \<longrightarrow>
      readConfig val0 (Some items) s = s) \<and>
   readConfig val0 None s = s \<and>
   (clicks_per_litre (readConfig val0 None init_globals),
    max_litres (readConfig val0 None init_globals),
    reset_period (readConfig val0 None init_globals),
    time_limit (readConfig val0 None init_globals),
    verbose (readConfig val0 None init_globals)) = (450, 200, 600, 900, 0)"
proof -
  have known:
    "readConfig val0 (Some ((''reset_period'', Some v) # rest)) s =
       readConfig v (Some rest) (s\<lparr>reset_period := v\<rparr>)"
    "readConfig val0 (Some ((''max_time'', Some v) # rest)) s =
       readConfig v (Some rest) (s\<lparr>time_limit := v * 60\<rparr>)"
    "readConfig val0 (Some ((''max_litres'', Some v) # rest)) s =
       readConfig v (Some rest) (s\<lparr>max_litres := v\<rparr>)"
    "readConfig val0 (Some ((''clicks_per_litre'', Some v) # rest)) s =
       readConfig v (Some rest) (s\<lparr>clicks_per_litre := v\<rparr>)"
    "readConfig val0 (Some ((''verbosity'', Some v) # rest)) s =
       readConfig v (Some rest) (s\<lparr>verbose := v\<rparr>)"
    by (simp_all add: readConfig_Cons config_key_def)
  have unknown: "readConfig val0 (Some ((buf, r) # rest)) s =
      readConfig (case r of Some v \<Rightarrow> v | None \<Rightarrow> val0) (Some rest) s"
    if "buf \<notin> set config_keys"
    using that by (simp add: readConfig_Cons config_key_unknown)
  have all_unknown: "readConfig val0 (Some items) s = s"
    if "\<forall>item \<in> set items. fst item \<notin> set config_keys"
    using that by (simp add: readConfig_def readConfig_loop_unknown)
  have missing: "readConfig val0 None s = s" "readConfig val0 None init_globals = init_globals"
    by (simp_all add: readConfig_def)
  have defaults: "(clicks_per_litre init_globals, max_litres init_globals,
      reset_period init_globals, time_limit init_globals, verbose init_globals) =
      (450, 200, 600, 900, 0)"
    by (simp add: init_globals_def)
  from known unknown all_unknown missing defaults show ?thesis
    by simp
qed

theorem readConfig_keys_witness:
  "''colour'' \<notin> set config_keys \<and> ''units'' \<notin> set config_keys \<and>
   readConfig 7 (Some [(''colour'', Some 3), (''max_time'', Some 2)]) init_globals =
     init_globals\<lparr>time_limit := 120\<rparr> \<and>
   readConfig 7 (Some [(''colour'', Some 3), (''units'', None)]) init_globals = init_globals \<and>
   readConfig 7 None init_globals = init_globals"
  using readConfig_keys [where ?val0.0 = 7 and v = 2 and rest = "[(''max_time'', Some 2)]"
      and s = init_globals and buf = "''colour''" and r = "Some 3"
      and items = "[(''colour'', Some 3), (''units'', None)]"]
    readConfig_keys [where ?val0.0 = 3 and v = 2 and rest = "[]"
      and s = init_globals and buf = "''colour''" and r = None and items = "[]"]
  by (simp add: config_keys_def readConfig_def)

lemma startup_state:
  assumes "startup val0 cfg opts fo io [] = Inr s0"
  shows "clicks s0 = 0" "last_click_count s0 = 0" "triggered s0 = 0" "relay s0 = HIGH"
    "reset s0 = 0" "counting s0 = 0"
proof -
  have f: "clicks (foldl apply_opt s opts) = clicks s \<and>
           last_click_count (foldl apply_opt s opts) = last_click_count s \<and>
           triggered (foldl apply_opt s opts) = triggered s \<and>
           reset (foldl apply_opt s opts) = reset s \<and>
           counting (foldl apply_opt s opts) = counting s" for s
  proof (induction opts arbitrary: s)
    case Nil
    then show ?case by simp
  next
    case (Cons a opts)
    then show ?case by (cases a) simp_all
  qed
  from assms obtain s3 where
    w: "writeState fo (status_line ''started'' ''startup'')
          (foldl apply_opt (readConfig val0 cfg init_globals) opts) = Inr s3"
    and s0: "s0 = s3\<lparr>relay := HIGH\<rparr>"
    by (auto simp: startup_def Let_def split: sum.splits if_splits)
  from w have "s3 = (foldl apply_opt (readConfig val0 cfg init_globals) opts)
      \<lparr>state_writes := state_writes (foldl apply_opt (readConfig val0 cfg init_globals) opts) @
         [status_line ''started'' ''startup'']\<rparr>"
    by (auto simp: writeState_def split: if_splits)
  with s0 f [of "readConfig val0 cfg init_globals"]
  show "clicks s0 = 0" "last_click_count s0 = 0" "triggered s0 = 0" "relay s0 = HIGH"
    "reset s0 = 0" "counting s0 = 0"
    by (simp_all add: readConfig_frame init_globals_def)
qed

subsection \<open>Reset\<close>

text \<open>
  C10. When the reset flag is 1 or 2 at the start of a pass through the loop, whatever the
  phase, the pass ends with the flag cleared, the pulse counter and its baseline at zero,
  both time stamps at \<open>now\<close>, the phase Idle, the relay energised and one ``started''
  record appended to the state file (``button'' when the flag is 1 or the button is read
  low while triggered, ``signal'' otherwise); since the phase is Idle and nothing else is
  written, that pass does not trigger. The divisor is non-zero and the state file can be
  opened.
\<close>

theorem pending_reset_consumed:
  assumes "reset s = 1 \<or> reset s = 2" and "clicks_per_litre s \<noteq> 0"
  shows "\<exists>s'. tick now button True s = Inr s' \<and> reset s' = 0 \<and> phase_of s' = Idle \<and>
           clicks s' = 0 \<and> last_click_count s' = 0 \<and>
           last_click_time s' = now \<and> first_click_time s' = now \<and> relay s' = HIGH \<and>
           state_writes s' = state_writes s @
             [if (triggered s \<noteq> 0 \<and> button = LOW) \<or> reset s = 1
              then ''started'' @ [CHR 0x09] @ ''button'' @ [CHR 0x0A]
              else ''started'' @ [CHR 0x09] @ ''signal'' @ [CHR 0x0A]]"
proof -
  from assms(1) have "(triggered s \<noteq> 0 \<and> button = LOW) \<or> reset s = 1 \<or> reset s = 2"
    by blast
  from tick_reset [OF this assms(2), of now] show ?thesis
    by (simp add: phase_of_Idle status_line_def)
qed

theorem pending_reset_consumed_witness:
  "(reset (stalled_state\<lparr>reset := 2\<rparr>) = 1 \<or> reset (stalled_state\<lparr>reset := 2\<rparr>) = 2) \<and>
   clicks_per_litre (stalled_state\<lparr>reset := 2\<rparr>) \<noteq> 0 \<and>
   phase_of (stalled_state\<lparr>reset := 2\<rparr>) = Counting \<and>
   (\<exists>s'. tick 1020 HIGH True (stalled_state\<lparr>reset := 2\<rparr>) = Inr s' \<and> reset s' = 0 \<and>
      phase_of s' = Idle \<and> clicks s' = 0 \<and> last_click_count s' = 0 \<and>
      last_click_time s' = 1020 \<and> first_click_time s' = 1020 \<and> relay s' = HIGH \<and>
      state_writes s' =
        [''started'' @ [CHR 0x09] @ ''startup'' @ [CHR 0x0A],
         ''started'' @ [CHR 0x09] @ ''signal'' @ [CHR 0x0A]])"
  using pending_reset_consumed [of "stalled_state\<lparr>reset := 2\<rparr>" 1020 HIGH]
  by (simp add: stalled_state_def state_defs)

text \<open>
  C6. In the Triggered phase, a pass through the loop that finds the reset flag at 1 or 2,
  or reads the reset button low, ends in the Idle phase with the flag cleared, the pulse
  counter and its baseline at zero, both time stamps at \<open>now\<close>, the relay energised and
  a ``started'' record appended whose reason is ``button'' when the button was read low or
  the flag was 1, and ``signal'' when the flag was 2 and the button was not low. The divisor
  is non-zero and the state file can be opened.
\<close>

theorem reset_while_triggered:
  assumes "phase_of s = Triggered" and "reset s = 1 \<or> reset s = 2 \<or> button = LOW"
    and "clicks_per_litre s \<noteq> 0"
  shows "\<exists>s'. tick now button True s = Inr s' \<and> phase_of s' = Idle \<and> reset s' = 0 \<and>
           clicks s' = 0 \<and> last_click_count s' = 0 \<and>
           last_click_time s' = now \<and> first_click_time s' = now \<and> relay s' = HIGH \<and>
           state_writes s' = state_writes s @
             [if button = LOW \<or> reset s = 1
              then ''started'' @ [CHR 0x09] @ ''button'' @ [CHR 0x0A]
              else ''started'' @ [CHR 0x09] @ ''signal'' @ [CHR 0x0A]]"
proof -
  from assms(1) have t: "triggered s \<noteq> 0" by (simp add: phase_of_Triggered)
  with assms(2) have "(triggered s \<noteq> 0 \<and> button = LOW) \<or> reset s = 1 \<or> reset s = 2"
    by blast
  from tick_reset [OF this assms(3), of now] t show ?thesis
    by (simp add: phase_of_Idle status_line_def)
qed

theorem reset_while_triggered_witness:
  "phase_of tripped_state = Triggered \<and>
   (reset tripped_state = 1 \<or> reset tripped_state = 2 \<or> LOW = LOW) \<and>
   clicks_per_litre tripped_state \<noteq> 0 \<and>
   (\<exists>s'. tick 2000 LOW True tripped_state = Inr s' \<and> phase_of s' = Idle \<and> reset s' = 0 \<and>
      clicks s' = 0 \<and> last_click_count s' = 0 \<and>
      last_click_time s' = 2000 \<and> first_click_time s' = 2000 \<and> relay s' = HIGH \<and>
      state_writes s' =
        [''started'' @ [CHR 0x09] @ ''startup'' @ [CHR 0x0A],
         ''stopped'' @ [CHR 0x09] @ ''time'' @ [CHR 0x0A],
         ''started'' @ [CHR 0x09] @ ''button'' @ [CHR 0x0A]])"
  using reset_while_triggered [of tripped_state LOW 2000]
  by (simp add: tripped_state_def tie_state_def state_defs)

subsection \<open>Pauses in the flow\<close>

text \<open>
  C5 (amended). In the Counting phase, with no reset request pending, a pass through the
  loop that reads a pulse delta of zero while more than \<open>reset_period\<close> seconds have
  passed since the last click leaves the globals as they were except that \<open>counting\<close>,
  the pulse counter and its baseline are zero: the phase is Idle, the relay is as it was
  and nothing is written to the state file, whether or not that file could be opened.
\<close>

theorem stall_reset_silent:
  assumes "phase_of s = Counting" and "clicks s = last_click_count s"
    and "reset_period s <s now - last_click_time s"
    and "reset s = 0" and "clicks_per_litre s \<noteq> 0"
  shows "\<exists>s'. tick now button fopen_ok s = Inr s' \<and>
           s' = s\<lparr>counting := 0, clicks := 0, last_click_count := 0\<rparr> \<and>
           phase_of s' = Idle \<and> clicks s' = 0 \<and> last_click_count s' = 0 \<and>
           relay s' = relay s \<and> state_writes s' = state_writes s"
  using assms by (simp add: tick_stall phase_of_Counting phase_of_Idle)

theorem stall_reset_silent_witness:
  "phase_of stalled_state = Counting \<and> clicks stalled_state = last_click_count stalled_state \<and>
   reset_period stalled_state <s 1611 - last_click_time stalled_state \<and>
   reset stalled_state = 0 \<and> clicks_per_litre stalled_state \<noteq> 0 \<and>
   (\<exists>s'. tick 1611 HIGH False stalled_state = Inr s' \<and>
      s' = stalled_state\<lparr>counting := 0, clicks := 0, last_click_count := 0\<rparr> \<and>
      phase_of s' = Idle \<and> clicks s' = 0 \<and> last_click_count s' = 0 \<and>
      relay s' = relay stalled_state \<and> state_writes s' = state_writes stalled_state)"
  using stall_reset_silent [of stalled_state 1611 HIGH False]
  by (simp add: stalled_state_def state_defs)

text \<open>
  C5 as stated fails when a reset request is pending: after a first pulse read at second
  1000 and the signal \<open>SIGUSR1\<close>, the pass at second 1611 is in the Counting phase, reads
  a delta of zero 611 seconds after the last click (more than 600), and writes the record
  ``started'' with ``signal''.
\<close>

theorem stall_with_reset_pending_counterexample:
  "startup 0 None [] True True [] = Inr entry_state \<and>
   exec entry_state [Click, Tick 1000 HIGH True, Signal 0 None SIGUSR1] =
     Inr (stalled_state\<lparr>reset := 2\<rparr>) \<and>
   phase_of (stalled_state\<lparr>reset := 2\<rparr>) = Counting \<and>
   clicks (stalled_state\<lparr>reset := 2\<rparr>) = last_click_count (stalled_state\<lparr>reset := 2\<rparr>) \<and>
   reset_period (stalled_state\<lparr>reset := 2\<rparr>) <s
     1611 - last_click_time (stalled_state\<lparr>reset := 2\<rparr>) \<and>
   tick 1611 HIGH True (stalled_state\<lparr>reset := 2\<rparr>) =
     Inr (stalled_state\<lparr>clicks := 0, counting := 0, last_click_time := 1611,
            last_click_count := 0, first_click_time := 1611,
            state_writes := [''started'' @ [CHR 0x09] @ ''startup'' @ [CHR 0x0A],
                             ''started'' @ [CHR 0x09] @ ''signal'' @ [CHR 0x0A]]\<rparr>) \<and>
   state_writes (stalled_state\<lparr>reset := 2\<rparr>) = [''started'' @ [CHR 0x09] @ ''startup'' @ [CHR 0x0A]] \<and>
   [''started'' @ [CHR 0x09] @ ''startup'' @ [CHR 0x0A],
    ''started'' @ [CHR 0x09] @ ''signal'' @ [CHR 0x0A]] \<noteq>
     [''started'' @ [CHR 0x09] @ ''startup'' @ [CHR 0x0A]]"
proof -
  have run: "exec entry_state [Click, Tick 1000 HIGH True, Signal 0 None SIGUSR1] =
      Inr (stalled_state\<lparr>reset := 2\<rparr>)"
    by (subst first_pulse)
      (simp_all add: stalled_state_def entry_state_def init_globals_def signalHandler_def)
  have pass: "tick 1611 HIGH True (stalled_state\<lparr>reset := 2\<rparr>) =
     Inr (stalled_state\<lparr>clicks := 0, counting := 0, last_click_time := 1611,
            last_click_count := 0, first_click_time := 1611,
            state_writes := [''started'' @ [CHR 0x09] @ ''startup'' @ [CHR 0x0A],
                             ''started'' @ [CHR 0x09] @ ''signal'' @ [CHR 0x0A]]\<rparr>)"
    by (subst tick_reset)
      (simp_all add: stalled_state_def entry_state_def init_globals_def status_line_def)
  show ?thesis
    unfolding run pass startup_entry by (simp add: stalled_state_def state_defs)
qed

text \<open>
  C9. In the Counting phase, a pass through the loop that reads a pulse delta of zero never
  ends in the Triggered phase and never de-energises the relay, whatever \<open>now\<close> is, so
  however long ago the first click was; and the pass does return a state when the divisor
  is non-zero and either no reset is pending or one is and the state file can be opened.
  The thresholds are therefore only compared on a pass whose delta is not zero.
\<close>

theorem no_trip_without_new_pulses:
  assumes "phase_of s = Counting" and "clicks s = last_click_count s"
  shows "(\<forall>s'. tick now button fopen_ok s = Inr s' \<longrightarrow>
            phase_of s' \<noteq> Triggered \<and> (relay s = HIGH \<longrightarrow> relay s' = HIGH)) \<and>
         (clicks_per_litre s \<noteq> 0 \<and> (reset s = 0 \<or> fopen_ok \<and> (reset s = 1 \<or> reset s = 2)) \<longrightarrow>
            (\<exists>s'. tick now button fopen_ok s = Inr s'))"
proof -
  from assms have t: "triggered s = 0" and c: "counting s \<noteq> 0"
    by (simp_all add: phase_of_Counting)
  have "phase_of s' \<noteq> Triggered \<and> (relay s = HIGH \<longrightarrow> relay s' = HIGH)"
    if "tick now button fopen_ok s = Inr s'" for s'
    using tick_effect(3) [OF that t assms(2)] by (simp add: phase_of_Triggered)
  moreover have "\<exists>s'. tick now button fopen_ok s = Inr s'"
    if "clicks_per_litre s \<noteq> 0" "reset s = 0"
    using that t c assms(2) by (simp add: tick_stall)
  moreover have "\<exists>s'. tick now button fopen_ok s = Inr s'"
    if "clicks_per_litre s \<noteq> 0" "fopen_ok" "reset s = 1 \<or> reset s = 2"
  proof -
    from that(3) have "(triggered s \<noteq> 0 \<and> button = LOW) \<or> reset s = 1 \<or> reset s = 2"
      by blast
    from tick_reset [OF this that(1), of now] that(2) show ?thesis by simp
  qed
  ultimately show ?thesis by blast
qed

theorem no_trip_without_new_pulses_witness:
  "phase_of paused_state = Counting \<and> clicks paused_state = last_click_count paused_state \<and>
   time_limit paused_state <s 2400 - first_click_time paused_state \<and>
   clicks_per_litre paused_state \<noteq> 0 \<and> reset paused_state = 0 \<and>
   tick 2400 HIGH True paused_state = Inr paused_state \<and>
   phase_of paused_state \<noteq> Triggered \<and> relay paused_state = HIGH"
proof -
  have t: "tick 2400 HIGH True paused_state = Inr paused_state"
    by (subst tick_stall) (simp_all add: paused_state_def state_defs)
  with no_trip_without_new_pulses [of paused_state 2400 HIGH True] show ?thesis
    by (simp add: paused_state_def state_defs)
qed

subsection \<open>Thresholds\<close>

lemma litres_over_ten: "(10 :: 32 word) < c div 100 \<longleftrightarrow> 1100 \<le> unat c"
proof -
  have "(10 :: 32 word) < c div 100 \<longleftrightarrow> 10 < unat c div 100"
    by (simp add: word_less_nat_alt unat_div)
  then show ?thesis by arith
qed

lemma tie_run_exec: "exec entry_state tie_run = Inr tie_state"
proof -
  have "exec entry_state tie_run =
      exec (entry_state\<lparr>clicks := 1, counting := 1, last_click_count := 1,
              total_clicks := total_clicks entry_state + 1, first_click_time := 1000,
              last_click_time := 1000\<rparr>) (replicate 90450 Click @ [])"
    unfolding tie_run_def
    by (subst first_pulse) (simp_all add: entry_state_def init_globals_def)
  then show ?thesis
    unfolding exec_clicks by (simp add: tie_state_def entry_state_def init_globals_def)
qed

lemma episode_run_exec: "exec small_entry (episode_run n) = Inr (episode_state (1 + of_nat n))"
proof -
  have "exec small_entry (episode_run n) =
      exec (small_entry\<lparr>clicks := 1, counting := 1, last_click_count := 1,
              total_clicks := total_clicks small_entry + 1, first_click_time := 1000,
              last_click_time := 1000\<rparr>) (replicate n Click @ [])"
    unfolding episode_run_def
    by (subst first_pulse) (simp_all add: small_entry_def entry_state_def init_globals_def)
  then show ?thesis
    unfolding exec_clicks
    by (simp add: episode_state_def small_entry_def entry_state_def init_globals_def)
qed

text \<open>
  C1 (amended). In the Counting phase, with no reset request pending, a pass through the
  loop that reads new pulses while both \<open>litres > max_litres\<close> and the time since the
  first click exceeds \<open>time_limit\<close> ends in the Triggered phase with the relay
  de-energised, and the record appended to the state file is ``stopped'' with the reason
  ``time'': the time test is made last and overwrites the reason of the volume test.
\<close>

theorem tie_break_time_wins:
  assumes "phase_of s = Counting" and "reset s = 0" and "clicks s \<noteq> last_click_count s"
    and "clicks_per_litre s \<noteq> 0"
    and "max_litres s < clicks s div clicks_per_litre s"
    and "time_limit s <s now - first_click_time s"
  shows "\<exists>s'. tick now button True s = Inr s' \<and> phase_of s' = Triggered \<and> relay s' = LOW \<and>
           state_writes s' = state_writes s @ [''stopped'' @ [CHR 0x09] @ ''time'' @ [CHR 0x0A]]"
proof -
  from assms(1) have "triggered s = 0" "counting s \<noteq> 0"
    by (simp_all add: phase_of_Counting)
  from tick_counting_pulses [OF this assms(2,3,4), of now button] assms(6)
  show ?thesis
    by (simp add: stop_reason_of_cases stop_msg_nth phase_of_Triggered status_line_def)
qed

theorem tie_break_time_wins_witness:
  "phase_of tie_state = Counting \<and> reset tie_state = 0 \<and>
   clicks tie_state \<noteq> last_click_count tie_state \<and> clicks_per_litre tie_state \<noteq> 0 \<and>
   max_litres tie_state < clicks tie_state div clicks_per_litre tie_state \<and>
   time_limit tie_state <s 1901 - first_click_time tie_state \<and>
   (\<exists>s'. tick 1901 HIGH True tie_state = Inr s' \<and> phase_of s' = Triggered \<and> relay s' = LOW \<and>
      state_writes s' = state_writes tie_state @ [''stopped'' @ [CHR 0x09] @ ''time'' @ [CHR 0x0A]])"
  using tie_break_time_wins [of tie_state 1901 HIGH]
  by (simp add: tie_state_def state_defs)

text \<open>
  C1 as stated fails: with the built-in settings, after a first pulse read at second 1000
  and 90450 more pulses, the pass at second 1901 finds 90451 clicks (201 litres, more than
  200) and 901 seconds since the first click (more than 900), and the record it writes is
  ``stopped'' with ``time'', which is not the ``volume'' record.
\<close>

theorem tie_break_volume_counterexample:
  "startup 0 None [] True True [] = Inr entry_state \<and>
   exec entry_state (Click # Tick 1000 HIGH True # replicate 90450 Click) = Inr tie_state \<and>
   phase_of tie_state = Counting \<and> reset tie_state = 0 \<and>
   clicks tie_state \<noteq> last_click_count tie_state \<and>
   max_litres tie_state < clicks tie_state div clicks_per_litre tie_state \<and>
   time_limit tie_state <s 1901 - first_click_time tie_state \<and>
   tick 1901 HIGH True tie_state =
     Inr (tie_state\<lparr>triggered := 1, last_click_time := 1901, last_click_count := 90451,
            total_clicks := 90451, relay := LOW,
            state_writes := [''started'' @ [CHR 0x09] @ ''startup'' @ [CHR 0x0A],
                             ''stopped'' @ [CHR 0x09] @ ''time'' @ [CHR 0x0A]]\<rparr>) \<and>
   ''stopped'' @ [CHR 0x09] @ ''time'' @ [CHR 0x0A] \<noteq> ''stopped'' @ [CHR 0x09] @ ''volume'' @ [CHR 0x0A]"
proof -
  have "tick 1901 HIGH True tie_state =
     Inr (tie_state\<lparr>triggered := 1, last_click_time := 1901, last_click_count := 90451,
            total_clicks := 90451, relay := LOW,
            state_writes := [''started'' @ [CHR 0x09] @ ''startup'' @ [CHR 0x0A],
                             ''stopped'' @ [CHR 0x09] @ ''time'' @ [CHR 0x0A]]\<rparr>)"
    by (subst tick_counting_pulses)
      (simp_all add: tie_state_def entry_state_def init_globals_def stop_reason_of_cases
        stop_msg_nth status_line_def)
  moreover have "exec entry_state (Click # Tick 1000 HIGH True # replicate 90450 Click) = Inr tie_state"
    using tie_run_exec by (simp only: tie_run_def)
  ultimately show ?thesis
    by (simp only: startup_entry) (simp add: tie_state_def state_defs status_line_def)
qed

text \<open>
  C2 (amended). With \<open>max_litres = 10\<close> and \<open>clicks_per_litre = 100\<close>, in the Counting
  phase with no reset request pending and the time limit not exceeded, a pass through the
  loop that reads new pulses ends in the Triggered phase, with the relay de-energised and
  the record ``stopped'' with ``volume'' appended, exactly when the pulse counter of the
  episode has reached 1100 (the first count whose whole litres, 11, exceed 10); below
  1100, so with 1001 clicks as with exactly 1000, the pass stays in the Counting phase,
  the relay is as it was and nothing is written.
\<close>

theorem volume_trip_at_1100:
  assumes "clicks_per_litre s = 100" and "max_litres s = 10"
    and "phase_of s = Counting" and "reset s = 0" and "clicks s \<noteq> last_click_count s"
    and "\<not> time_limit s <s now - first_click_time s"
  shows "\<exists>s'. tick now button True s = Inr s' \<and>
           (if 1100 \<le> unat (clicks s)
            then phase_of s' = Triggered \<and> relay s' = LOW \<and>
                 state_writes s' = state_writes s @ [''stopped'' @ [CHR 0x09] @ ''volume'' @ [CHR 0x0A]]
            else phase_of s' = Counting \<and> relay s' = relay s \<and>
                 state_writes s' = state_writes s)"
proof -
  from assms(3) have tc: "triggered s = 0" "counting s \<noteq> 0"
    by (simp_all add: phase_of_Counting)
  from assms(1) have cpl: "clicks_per_litre s \<noteq> 0" by simp
  have "tick now button True s =
     Inr (if stop_reason_of (clicks s div clicks_per_litre s) (now - first_click_time s) s = 0
          then s\<lparr>last_click_time := now, last_click_count := clicks s,
                 total_clicks := total_clicks s + (clicks s - last_click_count s)\<rparr>
          else s\<lparr>triggered := 1, last_click_time := now, last_click_count := clicks s,
                 total_clicks := total_clicks s + (clicks s - last_click_count s),
                 relay := LOW,
                 state_writes := state_writes s @
                   [status_line ''stopped''
                      (stop_msg ! unat (stop_reason_of (clicks s div clicks_per_litre s)
                                          (now - first_click_time s) s))]\<rparr>)"
    by (rule tick_counting_pulses [OF tc assms(4,5) cpl])
  moreover have "stop_reason_of (clicks s div clicks_per_litre s) (now - first_click_time s) s =
      (if 1100 \<le> unat (clicks s) then 1 else 0)"
    using assms(1,2,6) by (simp add: stop_reason_of_cases litres_over_ten)
  ultimately show ?thesis
    using tc
    by (simp add: stop_msg_nth phase_of_Triggered phase_of_Counting status_line_def)
qed

theorem volume_trip_at_1100_witness:
  "clicks_per_litre (episode_state 1100) = 100 \<and> max_litres (episode_state 1100) = 10 \<and>
   phase_of (episode_state 1100) = Counting \<and> reset (episode_state 1100) = 0 \<and>
   clicks (episode_state 1100) \<noteq> last_click_count (episode_state 1100) \<and>
   \<not> time_limit (episode_state 1100) <s 1030 - first_click_time (episode_state 1100) \<and>
   (\<exists>s'. tick 1030 HIGH True (episode_state 1100) = Inr s' \<and>
      phase_of s' = Triggered \<and> relay s' = LOW \<and>
      state_writes s' = state_writes (episode_state 1100) @ [''stopped'' @ [CHR 0x09] @ ''volume'' @ [CHR 0x0A]])"
  using volume_trip_at_1100 [of "episode_state 1100" 1030 HIGH]
  by (simp add: episode_state_def small_entry_def state_defs)

text \<open>
  C2 as stated fails: with \<open>max_litres 10\<close> and \<open>clicks_per_litre 100\<close> in the
  configuration file, after a first pulse read at second 1000 and 1000 more pulses the
  episode has 1001 clicks; the next pass computes 10 litres, which does not exceed 10,
  stays in the Counting phase and writes no record.
\<close>

theorem volume_trip_1001_counterexample:
  "startup 0 (Some [(''max_litres'', Some 10), (''clicks_per_litre'', Some 100)]) [] True True [] =
     Inr small_entry \<and>
   exec small_entry (Click # Tick 1000 HIGH True # replicate 1000 Click) =
     Inr (episode_state 1001) \<and>
   clicks_per_litre (episode_state 1001) = 100 \<and> max_litres (episode_state 1001) = 10 \<and>
   clicks (episode_state 1001) = 1001 \<and> phase_of (episode_state 1001) = Counting \<and>
   reset (episode_state 1001) = 0 \<and>
   tick 1030 HIGH True (episode_state 1001) =
     Inr ((episode_state 1001)\<lparr>last_click_time := 1030, last_click_count := 1001,
            total_clicks := 1001\<rparr>) \<and>
   phase_of ((episode_state 1001)\<lparr>last_click_time := 1030, last_click_count := 1001,
            total_clicks := 1001\<rparr>) = Counting \<and>
   relay ((episode_state 1001)\<lparr>last_click_time := 1030, last_click_count := 1001,
            total_clicks := 1001\<rparr>) = HIGH \<and>
   state_writes ((episode_state 1001)\<lparr>last_click_time := 1030, last_click_count := 1001,
            total_clicks := 1001\<rparr>) = [''started'' @ [CHR 0x09] @ ''startup'' @ [CHR 0x0A]]"
proof -
  have "tick 1030 HIGH True (episode_state 1001) =
     Inr ((episode_state 1001)\<lparr>last_click_time := 1030, last_click_count := 1001,
            total_clicks := 1001\<rparr>)"
    by (subst tick_counting_pulses)
      (simp_all add: episode_state_def small_entry_def entry_state_def init_globals_def
        stop_reason_of_cases)
  moreover have "exec small_entry (Click # Tick 1000 HIGH True # replicate 1000 Click) =
      Inr (episode_state 1001)"
    using episode_run_exec [of 1000] by (simp add: episode_run_def)
  moreover have "startup 0 (Some [(''max_litres'', Some 10), (''clicks_per_litre'', Some 100)]) []
      True True [] = Inr small_entry"
    using startup_small by (simp only: small_config_def)
  ultimately show ?thesis
    by (simp add: episode_state_def small_entry_def state_defs)
qed

subsection \<open>Pulses before every pass\<close>

lemma sint_of_nat_small: "k < 2 ^ 31 \<Longrightarrow> sint (of_nat k :: 32 word) = int k"
  by (simp add: signed_of_nat signed_take_bit_int_eq_self)

lemma not_sless_60: "k \<le> 60 \<Longrightarrow> \<not> (60 :: 32 word) <s of_nat k"
  using sint_of_nat_small [of k] by (simp add: word_sless_alt)

lemma stop_reason_of_cong:
  "max_litres s' = max_litres s \<Longrightarrow> time_limit s' = time_limit s \<Longrightarrow>
   stop_reason_of l t s' = stop_reason_of l t s"
  by (simp add: stop_reason_of_def)

lemma of_nat_pulses_neq_0: "0 < n \<Longrightarrow> n < 2 ^ 32 \<Longrightarrow> (of_nat n :: 32 word) \<noteq> 0"
  by (simp add: word_of_nat_eq_0_iff) (auto dest: dvd_imp_le)

lemma first_pulses:
  assumes "triggered s = 0" "counting s = 0" "reset s = 0" "clicks s = 0" "last_click_count s = 0"
    and "clicks_per_litre s \<noteq> 0" and "0 < n" "n < 2 ^ 32"
  shows "exec s (replicate n Click @ Tick now button True # es) =
     exec (s\<lparr>clicks := of_nat n, counting := 1, last_click_count := of_nat n,
             total_clicks := total_clicks s + of_nat n, first_click_time := now,
             last_click_time := now\<rparr>) es"
proof -
  let ?s1 = "s\<lparr>clicks := clicks s + of_nat n\<rparr>"
  have nz: "(of_nat n :: 32 word) \<noteq> 0"
    using assms(7,8) by (rule of_nat_pulses_neq_0)
  have "tick now button True ?s1 =
     Inr (s\<lparr>clicks := of_nat n, counting := 1, last_click_count := of_nat n,
            total_clicks := total_clicks s + of_nat n, first_click_time := now,
            last_click_time := now\<rparr>)"
    using assms(1-6) nz by (simp add: tick_ok apply_reset_idle transition_idle)
  then show ?thesis
    unfolding exec_clicks by simp
qed

lemma counting_pass:
  assumes "triggered s = 0" "counting s \<noteq> 0" "reset s = 0" "clicks s = last_click_count s"
    and "clicks_per_litre s \<noteq> 0" and "0 < n" "n < 2 ^ 32"
    and "stop_reason_of ((clicks s + of_nat n) div clicks_per_litre s) (t - first_click_time s) s = 0"
  shows "exec s (replicate n Click @ Tick t button True # es) =
     exec (s\<lparr>clicks := clicks s + of_nat n, last_click_time := t,
             last_click_count := clicks s + of_nat n,
             total_clicks := total_clicks s + of_nat n\<rparr>) es"
proof -
  let ?s1 = "s\<lparr>clicks := clicks s + of_nat n\<rparr>"
  have nz: "(of_nat n :: 32 word) \<noteq> 0"
    using assms(6,7) by (rule of_nat_pulses_neq_0)
  have sr: "stop_reason_of l u ?s1 = stop_reason_of l u s" for l u
    by (rule stop_reason_of_cong) simp_all
  have t1: "triggered ?s1 = 0" "counting ?s1 \<noteq> 0" "reset ?s1 = 0" "clicks_per_litre ?s1 \<noteq> 0"
    using assms(1,2,3,5) by simp_all
  have ne: "clicks ?s1 \<noteq> last_click_count ?s1"
    using nz by (simp add: assms(4))
  have z: "stop_reason_of (clicks ?s1 div clicks_per_litre ?s1) (t - first_click_time ?s1) ?s1 = 0"
    using assms(8) by (simp add: sr)
  have "tick t button True ?s1 =
     Inr (?s1\<lparr>last_click_time := t, last_click_count := clicks ?s1,
            total_clicks := total_clicks ?s1 + (clicks ?s1 - last_click_count ?s1)\<rparr>)"
    unfolding tick_counting_pulses [OF t1(1,2,3) ne t1(4)] z by simp
  also have "?s1\<lparr>last_click_time := t, last_click_count := clicks ?s1,
            total_clicks := total_clicks ?s1 + (clicks ?s1 - last_click_count ?s1)\<rparr> =
      s\<lparr>clicks := clicks s + of_nat n, last_click_time := t,
             last_click_count := clicks s + of_nat n,
             total_clicks := total_clicks s + of_nat n\<rparr>"
    by (simp add: assms(4) [symmetric])
  finally show ?thesis
    unfolding exec_clicks by simp
qed

lemma tripping_pass:
  assumes "triggered s = 0" "counting s \<noteq> 0" "reset s = 0" "clicks s = last_click_count s"
    and "clicks_per_litre s \<noteq> 0" and "0 < n" "n < 2 ^ 32"
    and "time_limit s <s t - first_click_time s"
  shows "exec s (replicate n Click @ [Tick t button True]) =
     Inr (s\<lparr>clicks := clicks s + of_nat n, triggered := 1, last_click_time := t,
            last_click_count := clicks s + of_nat n,
            total_clicks := total_clicks s + of_nat n, relay := LOW,
            state_writes := state_writes s @ [''stopped'' @ [CHR 0x09] @ ''time'' @ [CHR 0x0A]]\<rparr>)"
proof -
  let ?s1 = "s\<lparr>clicks := clicks s + of_nat n\<rparr>"
  have nz: "(of_nat n :: 32 word) \<noteq> 0"
    using assms(6,7) by (rule of_nat_pulses_neq_0)
  have sr: "stop_reason_of l u ?s1 = stop_reason_of l u s" for l u
    by (rule stop_reason_of_cong) simp_all
  have t1: "triggered ?s1 = 0" "counting ?s1 \<noteq> 0" "reset ?s1 = 0" "clicks_per_litre ?s1 \<noteq> 0"
    using assms(1,2,3,5) by simp_all
  have ne: "clicks ?s1 \<noteq> last_click_count ?s1"
    using nz by (simp add: assms(4))
  have z: "stop_reason_of (clicks ?s1 div clicks_per_litre ?s1) (t - first_click_time ?s1) ?s1 = 2"
    using assms(8) by (simp add: sr stop_reason_of_cases)
  have "tick t button True ?s1 =
     Inr (?s1\<lparr>triggered := 1, last_click_time := t, last_click_count := clicks ?s1,
            total_clicks := total_clicks ?s1 + (clicks ?s1 - last_click_count ?s1),
            relay := LOW,
            state_writes := state_writes ?s1 @ [''stopped'' @ [CHR 0x09] @ ''time'' @ [CHR 0x0A]]\<rparr>)"
    unfolding tick_counting_pulses [OF t1(1,2,3) ne t1(4)] z
    by (simp add: stop_msg_nth status_line_def)
  also have "?s1\<lparr>triggered := 1, last_click_time := t, last_click_count := clicks ?s1,
            total_clicks := total_clicks ?s1 + (clicks ?s1 - last_click_count ?s1),
            relay := LOW,
            state_writes := state_writes ?s1 @ [''stopped'' @ [CHR 0x09] @ ''time'' @ [CHR 0x0A]]\<rparr> =
      s\<lparr>clicks := clicks s + of_nat n, triggered := 1, last_click_time := t,
            last_click_count := clicks s + of_nat n,
            total_clicks := total_clicks s + of_nat n, relay := LOW,
            state_writes := state_writes s @ [''stopped'' @ [CHR 0x09] @ ''time'' @ [CHR 0x0A]]\<rparr>"
    by (simp add: assms(4) [symmetric])
  finally show ?thesis
    using exec_clicks [of s n "[Tick t button True]"] by simp
qed

lemma counting_passes:
  assumes "triggered s = 0" "counting s \<noteq> 0" "reset s = 0" "clicks s = last_click_count s"
    and "clicks_per_litre s \<noteq> 0"
    and "\<forall>p \<in> set r. 0 < fst p" and "sum_list (map fst r) < 2 ^ 32"
    and "\<forall>j < length r. \<not> time_limit s <s last_click_time s + of_nat (Suc j) - first_click_time s"
    and "\<forall>k \<le> sum_list (map fst r). \<not> max_litres s < (clicks s + of_nat k) div clicks_per_litre s"
  shows "exec s (pulsed_passes (last_click_time s + 1) r @ es) =
     exec (s\<lparr>clicks := clicks s + of_nat (sum_list (map fst r)),
             last_click_time := last_click_time s + of_nat (length r),
             last_click_count := clicks s + of_nat (sum_list (map fst r)),
             total_clicks := total_clicks s + of_nat (sum_list (map fst r))\<rparr>) es"
  using assms
proof (induction r arbitrary: s)
  case Nil
  from Nil.prems(4) have "s\<lparr>last_click_count := clicks s\<rparr> = s" by simp
  then show ?case by simp
next
  case (Cons p r)
  obtain n button where p: "p = (n, button)" by (cases p)
  let ?s1 = "s\<lparr>clicks := clicks s + of_nat n, last_click_time := last_click_time s + 1,
               last_click_count := clicks s + of_nat n,
               total_clicks := total_clicks s + of_nat n\<rparr>"
  from Cons.prems(6) p have n0: "0 < n" by simp
  from Cons.prems(7) p have n1: "n < 2 ^ 32" and rsum: "sum_list (map fst r) < 2 ^ 32"
    by simp_all
  have sr: "stop_reason_of l u ?s1 = stop_reason_of l u s" for l u
    by (rule stop_reason_of_cong) simp_all
  from Cons.prems(8) have "\<not> time_limit s <s last_click_time s + of_nat (Suc 0) - first_click_time s"
    by auto
  moreover from Cons.prems(9) p have "\<not> max_litres s < (clicks s + of_nat n) div clicks_per_litre s"
    by auto
  ultimately have first:
    "stop_reason_of ((clicks s + of_nat n) div clicks_per_litre s)
       (last_click_time s + 1 - first_click_time s) s = 0"
    by (simp add: stop_reason_of_cases)
  have time: "\<forall>j < length r. \<not> time_limit ?s1 <s
      last_click_time ?s1 + of_nat (Suc j) - first_click_time ?s1"
  proof (intro allI impI)
    fix j assume "j < length r"
    then have "Suc j < length (p # r)" by simp
    with Cons.prems(8) have
      "\<not> time_limit s <s last_click_time s + of_nat (Suc (Suc j)) - first_click_time s"
      by blast
    then show "\<not> time_limit ?s1 <s last_click_time ?s1 + of_nat (Suc j) - first_click_time ?s1"
      by (simp add: add.assoc)
  qed
  have volume: "\<forall>k \<le> sum_list (map fst r).
      \<not> max_litres ?s1 < (clicks ?s1 + of_nat k) div clicks_per_litre ?s1"
  proof (intro allI impI)
    fix k assume "k \<le> sum_list (map fst r)"
    then have "n + k \<le> sum_list (map fst (p # r))" by (simp add: p)
    with Cons.prems(9) have
      "\<not> max_litres s < (clicks s + of_nat (n + k)) div clicks_per_litre s"
      by blast
    then show "\<not> max_litres ?s1 < (clicks ?s1 + of_nat k) div clicks_per_litre ?s1"
      by (simp add: add.assoc)
  qed
  have pos: "\<forall>p \<in> set r. 0 < fst p" using Cons.prems(6) by simp
  have "exec s (pulsed_passes (last_click_time s + 1) (p # r) @ es) =
      exec ?s1 (pulsed_passes (last_click_time ?s1 + 1) r @ es)"
    using counting_pass [OF Cons.prems(1-5) n0 n1 first, of button] by (simp add: p)
  also have "\<dots> = exec (?s1\<lparr>clicks := clicks ?s1 + of_nat (sum_list (map fst r)),
             last_click_time := last_click_time ?s1 + of_nat (length r),
             last_click_count := clicks ?s1 + of_nat (sum_list (map fst r)),
             total_clicks := total_clicks ?s1 + of_nat (sum_list (map fst r))\<rparr>) es"
    using Cons.prems(1-5) pos rsum time volume by (intro Cons.IH) simp_all
  also have "?s1\<lparr>clicks := clicks ?s1 + of_nat (sum_list (map fst r)),
             last_click_time := last_click_time ?s1 + of_nat (length r),
             last_click_count := clicks ?s1 + of_nat (sum_list (map fst r)),
             total_clicks := total_clicks ?s1 + of_nat (sum_list (map fst r))\<rparr> =
      s\<lparr>clicks := clicks s + of_nat (sum_list (map fst (p # r))),
             last_click_time := last_click_time s + of_nat (length (p # r)),
             last_click_count := clicks s + of_nat (sum_list (map fst (p # r))),
             total_clicks := total_clicks s + of_nat (sum_list (map fst (p # r)))\<rparr>"
    by (simp add: p add.assoc)
  finally show ?case .
qed

lemma pulsed_passes_append:
  "pulsed_passes t (r @ r') = pulsed_passes t r @ pulsed_passes (t + of_nat (length r)) r'"
  by (induction r arbitrary: t) (auto simp: add.assoc)

text \<open>
  C8. With \<open>time_limit = 60\<close> after start-up and, from second \<open>t\<close> on, one pass through
  the loop every second, each pass preceded by at least one new pulse (any number of them,
  whatever the reset button reads), the volume threshold not being exceeded by the pulses
  of the first 61 passes: after the 61st pass, at second \<open>t + 60\<close>, the phase is still
  Counting, the first click being that of second \<open>t\<close>, the relay energised and nothing
  written since start-up; the pass of second \<open>t + 61\<close> ends in the Triggered phase with
  the relay de-energised and the record \<open>stopped\<close>, tab, \<open>time\<close>, line feed appended,
  whatever the volume at that pass.
\<close>

theorem time_trip_at_second_61:
  assumes "startup val0 cfg opts fo io [] = Inr s0"
    and "time_limit s0 = 60" and "clicks_per_litre s0 \<noteq> 0"
    and "length r = 61" and "\<forall>p \<in> set r. 0 < fst p" and "0 < m"
    and "sum_list (map fst r) + m < 2 ^ 32"
    and "\<forall>k \<le> sum_list (map fst r). \<not> max_litres s0 < of_nat k div clicks_per_litre s0"
  shows "\<exists>s1 s2. exec s0 (pulsed_passes t r) = Inr s1 \<and> phase_of s1 = Counting \<and>
           first_click_time s1 = t \<and> last_click_time s1 = t + 60 \<and> relay s1 = HIGH \<and>
           state_writes s1 = state_writes s0 \<and>
           exec s0 (pulsed_passes t (r @ [(m, button)])) = Inr s2 \<and> phase_of s2 = Triggered \<and>
           first_click_time s2 = t \<and> last_click_time s2 = t + 61 \<and> relay s2 = LOW \<and>
           state_writes s2 =
             state_writes s0 @ [''stopped'' @ [CHR 0x09] @ ''time'' @ [CHR 0x0A]]"
proof -
  note st = startup_state [OF assms(1)]
  from assms(4) obtain p r' where r: "r = p # r'" and len: "length r' = 60"
    by (cases r) simp_all
  obtain n b where p: "p = (n, b)" by (cases p)
  let ?total = "sum_list (map fst r')"
  from assms(5) r p have n0: "0 < n" and pos: "\<forall>p \<in> set r'. 0 < fst p" by simp_all
  from assms(7) r p have n1: "n < 2 ^ 32" and rsum: "?total < 2 ^ 32"
    and m1: "m < 2 ^ 32" by simp_all
  let ?sA = "s0\<lparr>clicks := of_nat n, counting := 1, last_click_count := of_nat n,
                total_clicks := total_clicks s0 + of_nat n, first_click_time := t,
                last_click_time := t\<rparr>"
  let ?sB = "?sA\<lparr>clicks := clicks ?sA + of_nat ?total,
                last_click_time := last_click_time ?sA + of_nat (length r'),
                last_click_count := clicks ?sA + of_nat ?total,
                total_clicks := total_clicks ?sA + of_nat ?total\<rparr>"
  have first: "exec s0 (replicate n Click @ Tick t b True # es) = exec ?sA es" for es
    using st assms(3) n0 n1 by (intro first_pulses) simp_all
  have time: "\<forall>j < length r'. \<not> time_limit ?sA <s
      last_click_time ?sA + of_nat (Suc j) - first_click_time ?sA"
  proof (intro allI impI)
    fix j :: nat assume "j < length r'"
    with len have "\<not> (60 :: 32 word) <s of_nat (Suc j)"
      by (intro not_sless_60) simp
    then show "\<not> time_limit ?sA <s last_click_time ?sA + of_nat (Suc j) - first_click_time ?sA"
      using assms(2) by simp
  qed
  have volume: "\<forall>k \<le> ?total. \<not> max_litres ?sA < (clicks ?sA + of_nat k) div clicks_per_litre ?sA"
  proof (intro allI impI)
    fix k assume "k \<le> ?total"
    then have "n + k \<le> sum_list (map fst r)" by (simp add: r p)
    with assms(8) have "\<not> max_litres s0 < of_nat (n + k) div clicks_per_litre s0"
      by blast
    then show "\<not> max_litres ?sA < (clicks ?sA + of_nat k) div clicks_per_litre ?sA"
      by simp
  qed
  have mid: "exec ?sA (pulsed_passes (t + 1) r' @ es) = exec ?sB es" for es
    using counting_passes [of ?sA r' es, OF _ _ _ _ _ pos rsum time volume] st assms(3)
    by simp
  have run61: "exec s0 (pulsed_passes t r) = Inr ?sB"
  proof -
    have "pulsed_passes t r = replicate n Click @ Tick t b True # pulsed_passes (t + 1) r' @ []"
      by (simp add: r p)
    then have "exec s0 (pulsed_passes t r) = exec ?sA (pulsed_passes (t + 1) r' @ [])"
      by (simp only: first)
    also have "\<dots> = exec ?sB []" by (rule mid)
    finally show ?thesis by simp
  qed
  have last: "exec ?sB (replicate m Click @ [Tick (t + 61) button True]) =
     Inr (?sB\<lparr>clicks := clicks ?sB + of_nat m, triggered := 1, last_click_time := t + 61,
            last_click_count := clicks ?sB + of_nat m,
            total_clicks := total_clicks ?sB + of_nat m, relay := LOW,
            state_writes := state_writes ?sB @
              [''stopped'' @ [CHR 0x09] @ ''time'' @ [CHR 0x0A]]\<rparr>)"
    using st assms(2,3,6) m1 by (intro tripping_pass) simp_all
  have run62: "exec s0 (pulsed_passes t (r @ [(m, button)])) =
     Inr (?sB\<lparr>clicks := clicks ?sB + of_nat m, triggered := 1, last_click_time := t + 61,
            last_click_count := clicks ?sB + of_nat m,
            total_clicks := total_clicks ?sB + of_nat m, relay := LOW,
            state_writes := state_writes ?sB @
              [''stopped'' @ [CHR 0x09] @ ''time'' @ [CHR 0x0A]]\<rparr>)"
  proof -
    have "pulsed_passes (t + 1) (r' @ [(m, button)]) =
        pulsed_passes (t + 1) r' @ replicate m Click @ [Tick (t + 61) button True]"
      by (simp add: pulsed_passes_append len)
    then have "pulsed_passes t (r @ [(m, button)]) =
        replicate n Click @ Tick t b True #
          pulsed_passes (t + 1) r' @ replicate m Click @ [Tick (t + 61) button True]"
      by (simp add: r p)
    then have "exec s0 (pulsed_passes t (r @ [(m, button)])) =
        exec ?sA (pulsed_passes (t + 1) r' @ replicate m Click @ [Tick (t + 61) button True])"
      by (simp only: first)
    also have "\<dots> = exec ?sB (replicate m Click @ [Tick (t + 61) button True])" by (rule mid)
    finally show ?thesis by (simp only: last)
  qed
  show ?thesis
    unfolding run61 run62 using st len by (simp add: phase_of_def)
qed

theorem time_trip_at_second_61_witness:
  "startup 0 None [Opt_t 1] True True [] = Inr minute_entry \<and>
   time_limit minute_entry = 60 \<and> clicks_per_litre minute_entry = 450 \<and>
   max_litres minute_entry = 200 \<and> length (replicate 61 (Suc 0, HIGH)) = 61 \<and>
   sum_list (map fst (replicate 61 (Suc 0, HIGH))) = 61 \<and>
   (\<exists>s1 s2. exec minute_entry (pulsed_passes 1000 (replicate 61 (Suc 0, HIGH))) = Inr s1 \<and>
      phase_of s1 = Counting \<and>
      first_click_time s1 = 1000 \<and> last_click_time s1 = 1060 \<and> relay s1 = HIGH \<and>
      state_writes s1 = [''started'' @ [CHR 0x09] @ ''startup'' @ [CHR 0x0A]] \<and>
      exec minute_entry (pulsed_passes 1000 (replicate 61 (Suc 0, HIGH) @ [(2, LOW)])) = Inr s2 \<and>
      phase_of s2 = Triggered \<and>
      first_click_time s2 = 1000 \<and> last_click_time s2 = 1061 \<and> relay s2 = LOW \<and>
      state_writes s2 = [''started'' @ [CHR 0x09] @ ''startup'' @ [CHR 0x0A],
                         ''stopped'' @ [CHR 0x09] @ ''time'' @ [CHR 0x0A]])"
proof -
  let ?r = "replicate 61 (Suc 0, HIGH)"
  have s: "startup 0 None [Opt_t 1] True True [] = Inr minute_entry"
    by (simp add: startup_def readConfig_def writeState_def minute_entry_def entry_state_def
        init_globals_def status_line_def Let_def)
  have sum: "sum_list (map fst ?r) = 61"
    by (simp add: sum_list_replicate)
  have v: "\<forall>k \<le> sum_list (map fst ?r).
      \<not> max_litres minute_entry < of_nat k div clicks_per_litre minute_entry"
  proof (intro allI impI)
    fix k :: nat assume "k \<le> sum_list (map fst ?r)"
    then have "k \<le> 61" by (simp only: sum)
    then have "unat (of_nat k div 450 :: 32 word) = 0"
      by (simp add: unat_div unat_of_nat)
    then have "(of_nat k div 450 :: 32 word) = 0"
      by (simp add: unat_eq_0)
    then show "\<not> max_litres minute_entry < of_nat k div clicks_per_litre minute_entry"
      by (simp add: minute_entry_def state_defs)
  qed
  have c: "time_limit minute_entry = 60" "clicks_per_litre minute_entry \<noteq> 0"
    by (simp_all add: minute_entry_def state_defs)
  have r: "length ?r = 61" "\<forall>p \<in> set ?r. 0 < fst p" "(0 :: nat) < 2"
    by simp_all
  have r4: "sum_list (map fst ?r) + 2 < 2 ^ 32"
    unfolding sum by simp
  from time_trip_at_second_61 [OF s c r r4 v, of 1000 LOW] s sum show ?thesis
    by (simp add: minute_entry_def state_defs status_line_def)
qed

subsection \<open>Runs that no handler preempts\<close>

lemma unpreempted_cases:
  assumes "unpreempted e"
  obtains "e = Click"
  | val0 cfg sig where "e = Signal val0 cfg sig"
  | now button ok where "e = Tick now button ok"
  | now button ok where "e = Pass now button ok []"
  using assms by (cases e) (auto simp: unpreempted_def)

lemma step_Pass_Nil: "step s (Pass now button ok []) = step s (Tick now button ok)"
  by (simp add: pass_unpreempted)

lemma read_delta_Pass_Nil:
  "read_delta s (Pass now button ok []) = read_delta s (Tick now button ok)"
  by (simp add: read_delta_def sample_unpreempted)

lemma pulses_simps [simp]:
  "pulses [] = 0"
  "pulses (Click # es) = Suc (pulses es)"
  "pulses (Signal val0 cfg sig # es) = pulses es"
  "pulses (Tick now button ok # es) = pulses es"
  "pulses (Pass now button ok sched # es) = count_list (map snd sched) Pulse + pulses es"
  by (simp_all add: pulses_def pulses_of_def)

lemma step_signal_frame:
  assumes "step s (Signal val0 cfg sig) = Inr s'"
  shows "clicks s' = clicks s" "last_click_count s' = last_click_count s"
    and "(triggered s \<noteq> 0 \<longleftrightarrow> relay s = LOW) \<Longrightarrow> (triggered s' \<noteq> 0 \<longleftrightarrow> relay s' = LOW)"
  using assms
  by (cases sig; auto simp: signalHandler_def readConfig_frame showStats_def split: sum.splits)+

lemma step_tick_delta:
  assumes "step s (Tick now button ok) = Inr s'"
  shows "read_delta s (Tick now button ok) = [clicks s - last_click_count s]"
    and "clicks s' = last_click_count s'"
proof -
  from assms have t: "tick now button ok s = Inr s'" by simp
  then have "clicks_per_litre s \<noteq> 0" by (rule tick_InrD)
  then show "read_delta s (Tick now button ok) = [clicks s - last_click_count s]"
    by (simp add: read_delta_def sample_ok)
  from t show "clicks s' = last_click_count s'" by (rule tick_effect(1))
qed

lemma read_delta_other [simp]:
  "read_delta s Click = []" "read_delta s (Signal val0 cfg sig) = []"
  by (simp_all add: read_delta_def)

text \<open>
  Along a run that no handler preempts, the deltas read so far and the pulses not yet read
  add up to the pulses that were pending at its start and those counted since.
\<close>

lemma deltas_account:
  "exec s evs = Inr s' \<Longrightarrow> \<forall>e \<in> set evs. unpreempted e \<Longrightarrow>
   sum_list (deltas s evs) + (clicks s' - last_click_count s') =
     (clicks s - last_click_count s) + of_nat (pulses evs)"
proof (induction evs arbitrary: s)
  case Nil
  then show ?case by simp
next
  case (Cons e es)
  from Cons.prems(1) obtain s1 where s1: "step s e = Inr s1" and rest: "exec s1 es = Inr s'"
    by (auto split: sum.splits)
  from Cons.prems(2) have e: "unpreempted e" and "\<forall>e \<in> set es. unpreempted e"
    by simp_all
  note IH = Cons.IH [OF rest this(2)]
  from e show ?case
  proof (cases rule: unpreempted_cases)
    case 1
    with s1 have "s1 = handleClick s" by simp
    with IH 1 s1 show ?thesis by (simp add: handleClick_def)
  next
    case (2 val0 cfg sig)
    with s1 step_signal_frame(1,2) [of s val0 cfg sig s1] IH show ?thesis by simp
  next
    case (3 now button ok)
    with s1 step_tick_delta [of s now button ok s1] IH show ?thesis by simp
  next
    case (4 now button ok)
    with s1 have t: "step s (Tick now button ok) = Inr s1"
      by (simp only: step_Pass_Nil)
    from step_tick_delta [OF t] have "read_delta s e = [clicks s - last_click_count s]"
      and "clicks s1 = last_click_count s1"
      by (simp_all only: 4 read_delta_Pass_Nil)
    with 4 s1 IH show ?thesis by simp
  qed
qed

lemma exec_append:
  "exec s (xs @ ys) = (case exec s xs of Inl err \<Rightarrow> Inl err | Inr s1 \<Rightarrow> exec s1 ys)"
  by (induction xs arbitrary: s) (auto split: sum.splits)

lemma deltas_append:
  "exec s xs = Inr s1 \<Longrightarrow> deltas s (xs @ ys) = deltas s xs @ deltas s1 ys"
  by (induction xs arbitrary: s) (auto split: sum.splits)

lemma deltas_no_tick: "\<forall>e \<in> set ys. \<not> is_tick e \<Longrightarrow> deltas s ys = []"
proof (induction ys arbitrary: s)
  case Nil
  then show ?case by simp
next
  case (Cons e es)
  then show ?case by (cases e) (auto simp: is_tick_def split: sum.splits)
qed

lemma exec_ends_with_tick:
  "exec s xs = Inr s1 \<Longrightarrow> xs \<noteq> [] \<Longrightarrow> is_tick (last xs) \<Longrightarrow> unpreempted (last xs) \<Longrightarrow>
   clicks s1 = last_click_count s1"
proof (induction xs arbitrary: s)
  case Nil
  then show ?case by simp
next
  case (Cons e es)
  from Cons.prems(1) obtain s2 where s2: "step s e = Inr s2" and rest: "exec s2 es = Inr s1"
    by (auto split: sum.splits)
  show ?case
  proof (cases "es = []")
    case True
    with Cons.prems(3,4) obtain now button ok where
      "e = Tick now button ok \<or> e = Pass now button ok []"
      by (cases e) (auto simp: is_tick_def unpreempted_def)
    with s2 have "step s (Tick now button ok) = Inr s2"
      by (auto simp only: step_Pass_Nil)
    with rest True step_tick_delta(2) [of s now button ok s2] show ?thesis by simp
  next
    case False
    with Cons.prems(3,4) Cons.IH [OF rest] show ?thesis by simp
  qed
qed

lemma split_at_last_tick:
  "evs = upto_last_tick evs @ rev (takeWhile (\<lambda>e. \<not> is_tick e) (rev evs))"
proof -
  have "rev (takeWhile (\<lambda>e. \<not> is_tick e) (rev evs) @ dropWhile (\<lambda>e. \<not> is_tick e) (rev evs)) = evs"
    by simp
  then show ?thesis unfolding upto_last_tick_def rev_append by (rule sym)
qed

lemma upto_last_tick_last:
  "upto_last_tick evs \<noteq> [] \<Longrightarrow> is_tick (last (upto_last_tick evs))"
  using hd_dropWhile [of "\<lambda>e. \<not> is_tick e" "rev evs"]
  by (simp add: upto_last_tick_def last_rev)

lemma upto_last_tick_subset: "set (upto_last_tick evs) \<subseteq> set evs"
  by (auto simp: upto_last_tick_def dest: set_dropWhileD)

text \<open>
  When handlers run only between the passes, in a run from start-up that does not end the
  process the deltas read by the passes add up, as 32-bit values, to the number of pulses
  counted before the last pass, across the reset and the stall paths too.
\<close>

lemma sequential_deltas_sum:
  assumes "startup val0 cfg opts fo io [] = Inr s0" and "exec s0 evs = Inr s'"
    and "\<forall>e \<in> set evs. unpreempted e"
  shows "sum_list (deltas s0 evs) = of_nat (pulses (upto_last_tick evs))"
proof -
  let ?pre = "upto_last_tick evs" and ?post = "rev (takeWhile (\<lambda>e. \<not> is_tick e) (rev evs))"
  have evs: "evs = ?pre @ ?post" by (rule split_at_last_tick)
  with assms(2) have "exec s0 (?pre @ ?post) = Inr s'" by simp
  then obtain s1 where s1: "exec s0 ?pre = Inr s1"
    by (auto simp: exec_append split: sum.splits)
  have "\<forall>e \<in> set ?post. \<not> is_tick e"
    by (auto dest: set_takeWhileD)
  then have "deltas s1 ?post = []" by (rule deltas_no_tick)
  with deltas_append [OF s1, of ?post] evs have d: "deltas s0 evs = deltas s0 ?pre"
    by simp
  from assms(3) upto_last_tick_subset [of evs] have u: "\<forall>e \<in> set ?pre. unpreempted e"
    by blast
  have p: "clicks s1 = last_click_count s1"
  proof (cases "?pre = []")
    case True
    with s1 startup_state(1,2) [OF assms(1)] show ?thesis by simp
  next
    case False
    with u have "unpreempted (last ?pre)" by simp
    with False s1 upto_last_tick_last [of evs] show ?thesis
      by (auto intro: exec_ends_with_tick)
  qed
  from deltas_account [OF s1 u] p startup_state(1,2) [OF assms(1)] d
  show ?thesis by simp
qed

text \<open>
  When handlers run only between the passes and none runs during start-up, in every state
  a run reaches the relay is de-energised when the phase is Triggered and energised when
  the phase is Idle or Counting.
\<close>

lemma sequential_relay_follows_phase:
  assumes "startup val0 cfg opts fo io [] = Inr s0" and "exec s0 evs = Inr s"
    and "\<forall>e \<in> set evs. unpreempted e"
  shows "(phase_of s = Triggered \<longrightarrow> relay s = LOW) \<and>
         (phase_of s = Idle \<or> phase_of s = Counting \<longrightarrow> relay s = HIGH)"
proof -
  have inv: "triggered s' \<noteq> 0 \<longleftrightarrow> relay s' = LOW"
    if "exec s1 evs = Inr s'" "triggered s1 \<noteq> 0 \<longleftrightarrow> relay s1 = LOW"
      "\<forall>e \<in> set evs. unpreempted e" for s1 s'
    using that
  proof (induction evs arbitrary: s1)
    case Nil
    then show ?case by simp
  next
    case (Cons e es)
    from Cons.prems(1) obtain s2 where s2: "step s1 e = Inr s2" and rest: "exec s2 es = Inr s'"
      by (auto split: sum.splits)
    from Cons.prems(3) have e: "unpreempted e" and es: "\<forall>e \<in> set es. unpreempted e"
      by simp_all
    from e have "triggered s2 \<noteq> 0 \<longleftrightarrow> relay s2 = LOW"
    proof (cases rule: unpreempted_cases)
      case 1
      with s2 Cons.prems(2) show ?thesis by (auto simp: handleClick_def)
    next
      case (2 val0 cfg sig)
      with s2 Cons.prems(2) show ?thesis by (simp add: step_signal_frame(3))
    next
      case (3 now button ok)
      with s2 Cons.prems(2) show ?thesis using tick_effect(2) [of now button ok s1 s2] by simp
    next
      case (4 now button ok)
      with s2 Cons.prems(2) show ?thesis
        using tick_effect(2) [of now button ok s1 s2] by (simp add: pass_unpreempted)
    qed
    with rest show ?case using es by (rule Cons.IH)
  qed
  from startup_state(3,4) [OF assms(1)] have "triggered s0 \<noteq> 0 \<longleftrightarrow> relay s0 = LOW"
    by simp
  from inv [OF assms(2) this assms(3)] show ?thesis
    by (cases "relay s") (auto simp: phase_of_def split: if_splits)
qed

subsection \<open>Handlers that preempt a pass\<close>

lemmas run_defs = tick_def sample_def apply_reset_def transition_def stop_reason_of_def
  read_delta_def pulses_def pulses_of_def

text \<open>
  C3 does not hold of the code: a pulse that arrives inside a pass can be lost. \<open>clicks\<close>
  is read at line 281 for the delta and again at line 282 for the baseline, and zeroed at
  lines 292 and 308, with nothing to keep \<open>handleClick\<close> from running in between. From
  start-up with the built-in settings:
  \<^item> one pulse between lines 281 and 282 of the pass of second 1000: that pass reads the
    delta 0 and stores the baseline 1, and the pass of second 1001 reads 0 again; the
    counter is 1 and the lifetime total 0;
  \<^item> after \<open>SIGUSR1\<close>, one pulse between lines 291 and 292 of the pass that resets: the
    pulse is zeroed with the counter, and both passes read 0;
  \<^item> after a first pulse read at second 1000, one pulse between lines 307 and 308 of the
    pass of second 1611, which takes the stall path: the pulse is zeroed with the counter,
    and the three passes read 1, 0 and 0 for two pulses.

  In each run the pulse comes before the last read, the deltas add up to one less than the
  pulses, and no pulse is left pending (counter and baseline are equal at the end).
\<close>

theorem pulse_lost_between_reads:
  "startup 0 None [] True True [] = Inr entry_state \<and>
   pulses [Pass 1000 HIGH True [(282, Pulse)], Tick 1001 HIGH True] = 1 \<and>
   exec entry_state [Pass 1000 HIGH True [(282, Pulse)], Tick 1001 HIGH True] =
     Inr (entry_state\<lparr>clicks := 1, last_click_count := 1\<rparr>) \<and>
   deltas entry_state [Pass 1000 HIGH True [(282, Pulse)], Tick 1001 HIGH True] = [0, 0] \<and>
   total_clicks (entry_state\<lparr>clicks := 1, last_click_count := 1\<rparr>) = 0 \<and>
   pulses [Signal 0 None SIGUSR1, Pass 1000 HIGH True [(292, Pulse)], Tick 1001 HIGH True] = 1 \<and>
   exec entry_state
     [Signal 0 None SIGUSR1, Pass 1000 HIGH True [(292, Pulse)], Tick 1001 HIGH True] =
     Inr (entry_state\<lparr>last_click_time := 1000, first_click_time := 1000,
            state_writes := [''started'' @ [CHR 0x09] @ ''startup'' @ [CHR 0x0A],
                             ''started'' @ [CHR 0x09] @ ''signal'' @ [CHR 0x0A]]\<rparr>) \<and>
   deltas entry_state
     [Signal 0 None SIGUSR1, Pass 1000 HIGH True [(292, Pulse)], Tick 1001 HIGH True] = [0, 0] \<and>
   pulses [Click, Tick 1000 HIGH True, Pass 1611 HIGH True [(308, Pulse)],
           Tick 1612 HIGH True] = 2 \<and>
   exec entry_state [Click, Tick 1000 HIGH True, Pass 1611 HIGH True [(308, Pulse)],
                     Tick 1612 HIGH True] =
     Inr (entry_state\<lparr>total_clicks := 1, first_click_time := 1000,
            last_click_time := 1000\<rparr>) \<and>
   deltas entry_state [Click, Tick 1000 HIGH True, Pass 1611 HIGH True [(308, Pulse)],
                       Tick 1612 HIGH True] = [1, 0, 0]"
proof -
  have read_exec:
    "exec entry_state [Pass 1000 HIGH True [(282, Pulse)], Tick 1001 HIGH True] =
       Inr (entry_state\<lparr>clicks := 1, last_click_count := 1\<rparr>)"
    by (simp add: pass_defs run_defs entry_state_def init_globals_def)
  have read_deltas:
    "deltas entry_state [Pass 1000 HIGH True [(282, Pulse)], Tick 1001 HIGH True] = [0, 0]"
    by (simp add: pass_defs run_defs entry_state_def init_globals_def)
  have reset_exec:
    "exec entry_state
       [Signal 0 None SIGUSR1, Pass 1000 HIGH True [(292, Pulse)], Tick 1001 HIGH True] =
     Inr (entry_state\<lparr>last_click_time := 1000, first_click_time := 1000,
            state_writes := [''started'' @ [CHR 0x09] @ ''startup'' @ [CHR 0x0A],
                             ''started'' @ [CHR 0x09] @ ''signal'' @ [CHR 0x0A]]\<rparr>)"
    by (simp add: pass_defs run_defs entry_state_def init_globals_def)
  have reset_deltas:
    "deltas entry_state
       [Signal 0 None SIGUSR1, Pass 1000 HIGH True [(292, Pulse)], Tick 1001 HIGH True] = [0, 0]"
    by (simp add: pass_defs run_defs entry_state_def init_globals_def)
  have stall_exec:
    "exec entry_state [Click, Tick 1000 HIGH True, Pass 1611 HIGH True [(308, Pulse)],
                       Tick 1612 HIGH True] =
     Inr (entry_state\<lparr>total_clicks := 1, first_click_time := 1000,
            last_click_time := 1000\<rparr>)"
    by (simp add: pass_defs run_defs entry_state_def init_globals_def)
  have stall_deltas:
    "deltas entry_state [Click, Tick 1000 HIGH True, Pass 1611 HIGH True [(308, Pulse)],
                         Tick 1612 HIGH True] = [1, 0, 0]"
    by (simp add: pass_defs run_defs entry_state_def init_globals_def)
  show ?thesis
    unfolding read_exec read_deltas reset_exec reset_deltas stall_exec stall_deltas
    by (simp add: startup_entry) (simp add: entry_state_def init_globals_def)
qed

text \<open>
  C4 does not hold of the code: the relay can stay energised in the Triggered phase, pass
  after pass. \<open>signalHandler\<close> writes the relay and \<open>triggered\<close> on \<open>SIGCONT\<close> with nothing
  to keep \<open>main\<close> from being between two statements that write them:
  \<^item> \<open>SIGCONT\<close> during start-up, after the handlers are attached and before line 267:
    the handler de-energises the relay and sets \<open>triggered\<close>, line 267 energises the
    relay, and the loop is entered in the Triggered phase with the relay energised; a pass
    that reads the reset button high changes nothing;
  \<^item> after \<open>SIGUSR1\<close>, \<open>SIGCONT\<close> between lines 291 and 292 of the pass that resets: the
    handler sets \<open>triggered\<close> after line 291 has cleared it, and line 301 energises the
    relay; that pass and the next one end in the Triggered phase with the relay energised.

  No threshold is compared in the Triggered phase, so the pump then runs unguarded until a
  reset.
\<close>

theorem relay_high_while_triggered:
  "startup 0 None [] True True [Sig 0 None SIGCONT] = Inr (entry_state\<lparr>triggered := 1\<rparr>) \<and>
   exec (entry_state\<lparr>triggered := 1\<rparr>) [Tick 1000 HIGH True] =
     Inr (entry_state\<lparr>triggered := 1\<rparr>) \<and>
   phase_of (entry_state\<lparr>triggered := 1\<rparr>) = Triggered \<and>
   relay (entry_state\<lparr>triggered := 1\<rparr>) = HIGH \<and>
   startup 0 None [] True True [] = Inr entry_state \<and>
   exec entry_state
     [Signal 0 None SIGUSR1, Pass 1000 HIGH True [(292, Sig 0 None SIGCONT)]] =
     Inr raced_state \<and>
   exec entry_state
     [Signal 0 None SIGUSR1, Pass 1000 HIGH True [(292, Sig 0 None SIGCONT)],
      Tick 1001 HIGH True] = Inr raced_state \<and>
   phase_of raced_state = Triggered \<and> relay raced_state = HIGH \<and>
   state_writes raced_state = [''started'' @ [CHR 0x09] @ ''startup'' @ [CHR 0x0A],
                               ''started'' @ [CHR 0x09] @ ''signal'' @ [CHR 0x0A]]"
proof -
  have early: "startup 0 None [] True True [Sig 0 None SIGCONT] =
      Inr (entry_state\<lparr>triggered := 1\<rparr>)"
    by (simp add: startup_def readConfig_def writeState_def handler_def signalHandler_def
        entry_state_def init_globals_def status_line_def Let_def)
  have stays: "exec (entry_state\<lparr>triggered := 1\<rparr>) [Tick 1000 HIGH True] =
      Inr (entry_state\<lparr>triggered := 1\<rparr>)"
    by (simp add: run_defs sdiv32_def udiv32_def entry_state_def init_globals_def)
  have race: "exec entry_state
      [Signal 0 None SIGUSR1, Pass 1000 HIGH True [(292, Sig 0 None SIGCONT)]] =
      Inr raced_state"
    by (simp add: pass_defs raced_state_def entry_state_def init_globals_def)
  have next_pass: "exec entry_state
      [Signal 0 None SIGUSR1, Pass 1000 HIGH True [(292, Sig 0 None SIGCONT)],
       Tick 1001 HIGH True] = Inr raced_state"
    by (simp add: pass_defs run_defs raced_state_def entry_state_def init_globals_def)
  show ?thesis
    unfolding early stays race next_pass
    by (simp add: startup_entry) (simp add: raced_state_def state_defs)
qed

end
